theory Spec2Isabelle
  imports Main "HOL-Library.Monad_Syntax"
begin

chapter \<open>Voice to Drive: the capture / persistence / sync engine\<close>

text \<open>
  A shallow embedding of the JavaScript services of the repository:
  \<^item> \<^verbatim>\<open>StorageService\<close> (js/storage.js): the IndexedDB stores of recordings and chunks;
  \<^item> \<^verbatim>\<open>RecorderService\<close> (js/recorder.js and its older copy unnamed/part_000);
  \<^item> \<^verbatim>\<open>DriveService\<close> (js/drive.js): folder cache, upload, re-authentication;
  \<^item> \<^verbatim>\<open>App\<close>: the sync pass and crash recovery, in its two copies (js/app.js and
    the copy that follows the Drive service in js/drive.js).

  Module-level variables become fields of explicit state records, a rejected promise
  or a thrown error becomes the \<open>Inl\<close> of a sum, and everything read from outside the
  program (the clock, HTTP responses, the token client) is an explicit input.
\<close>

section \<open>StorageService (js/storage.js)\<close>

text \<open>
  A \<^verbatim>\<open>Blob\<close> is its content and its MIME type; \<^verbatim>\<open>blob.size\<close> is the length of the
  content. \<^verbatim>\<open>new Blob(parts, {type})\<close> concatenates the parts in order.
\<close>

record blob =
  content :: "nat list"
  btype :: string

definition size_of :: "blob \<Rightarrow> nat" where
  "size_of b = length (content b)"

definition new_Blob :: "blob list \<Rightarrow> string \<Rightarrow> blob" where
  "new_Blob parts ty = \<lparr>content = concat (map content parts), btype = ty\<rparr>"

text \<open>
  \<^verbatim>\<open>new Date()\<close>: the instant (milliseconds since the epoch, which stands for the ISO
  string written to the stores) and the local calendar fields the file name and the
  Drive path are printed from. \<^verbatim>\<open>getMonth()\<close> counts from 0.
\<close>

record date =
  instant :: nat
  fullYear :: nat
  month0 :: nat
  dayOfMonth :: nat
  hours :: nat
  minutes :: nat
  seconds :: nat

definition digit :: "nat \<Rightarrow> char" where
  "digit d =
     (if d = 0 then CHR ''0'' else if d = 1 then CHR ''1'' else if d = 2 then CHR ''2''
      else if d = 3 then CHR ''3'' else if d = 4 then CHR ''4'' else if d = 5 then CHR ''5''
      else if d = 6 then CHR ''6'' else if d = 7 then CHR ''7'' else if d = 8 then CHR ''8''
      else CHR ''9'')"

fun toString :: "nat \<Rightarrow> string" where
  "toString n = (if n < 10 then [digit n] else toString (n div 10) @ [digit (n mod 10)])"

declare toString.simps [simp del]

definition pad :: "nat \<Rightarrow> string" where
  \<comment> \<open>\<^verbatim>\<open>n.toString().padStart(2, '0')\<close>\<close>
  "pad n = (if n < 10 then CHR ''0'' # toString n else toString n)"

definition generateFileName :: "date \<Rightarrow> string" where
  "generateFileName d =
     toString (fullYear d) @ ''-'' @ pad (month0 d + 1) @ ''-'' @ pad (dayOfMonth d) @ ''_'' @
     pad (hours d) @ ''-'' @ pad (minutes d) @ ''-'' @ pad (seconds d) @ ''.webm''"

definition generateDrivePath :: "date \<Rightarrow> string" where
  "generateDrivePath d =
     ''recordings/'' @ toString (fullYear d) @ ''/'' @ pad (month0 d + 1) @ ''/'' @
     pad (dayOfMonth d)"

datatype status = Pending | Uploading | Synced | Failed

text \<open>
  An identifier of a file or folder on Google Drive: the alias \<^verbatim>\<open>'root'\<close>, or an id
  the server generated (never an empty string, so never falsy).
\<close>

datatype fid = Root | Id nat

text \<open>
  A record of the \<^verbatim>\<open>recordings\<close> store. The fields are those \<^verbatim>\<open>saveRecording\<close> writes,
  those its callers pass as metadata (\<^verbatim>\<open>recovered\<close>, \<^verbatim>\<open>originalSessionId\<close>) and those
  \<^verbatim>\<open>updateRecordingStatus\<close> adds (\<^verbatim>\<open>syncedAt\<close>, \<^verbatim>\<open>driveFileId\<close>, \<^verbatim>\<open>driveId\<close>); a field
  the JavaScript object does not have yet is \<open>None\<close>.
\<close>

record recording =
  rid :: nat
  rblob :: blob
  timestamp :: nat
  duration :: int
  fileName :: string
  drivePath :: string
  rstatus :: status
  synced :: nat
  retryCount :: nat
  lastRetry :: "nat option"
  fileSize :: nat
  mimeType :: string
  syncedAt :: "nat option"
  driveFileId :: "fid option"
  driveId :: "fid option"
  recovered :: bool
  originalSessionId :: "string option"

record chunk =
  cid :: nat
  sessionId :: string
  cseq :: nat
  cblob :: blob
  ctimestamp :: int

text \<open>
  The open database. Both stores have \<^verbatim>\<open>autoIncrement\<close> keys, so each is a list in key
  order with the next key to hand out. The model starts after \<^verbatim>\<open>init\<close> has resolved
  (\<^verbatim>\<open>db\<close> is not null) and every IndexedDB request succeeds.
\<close>

record db =
  recordings :: "recording list"
  nextRecordingId :: nat
  chunks :: "chunk list"
  nextChunkId :: nat

datatype error =
    RecordingNotFound
  | NotAuthenticated
  | NotInitialised
  | TokenError
  | HttpError nat
  | NetworkError
  | NoRecordingInProgress
  | SupabaseNotInitialised

text \<open>The metadata argument of \<^verbatim>\<open>saveRecording\<close>: the keys its callers pass.\<close>

record metadata =
  m_duration :: "int option"
  m_mimeType :: "string option"
  m_recovered :: "bool option"
  m_originalSessionId :: "string option"

definition no_metadata :: metadata where
  "no_metadata = \<lparr>m_duration = None, m_mimeType = None, m_recovered = None,
     m_originalSessionId = None\<rparr>"

definition saveRecording :: "date \<Rightarrow> blob \<Rightarrow> metadata \<Rightarrow> db \<Rightarrow> nat \<times> db" where
  "saveRecording now b md d =
     (let r = \<lparr>rid = nextRecordingId d,
                rblob = b,
                timestamp = instant now,
                duration = (case m_duration md of None \<Rightarrow> 0 | Some x \<Rightarrow> x),
                fileName = generateFileName now,
                drivePath = generateDrivePath now,
                rstatus = Pending,
                synced = 0,
                retryCount = 0,
                lastRetry = None,
                fileSize = size_of b,
                mimeType = (case m_mimeType md of None \<Rightarrow> btype b | Some t \<Rightarrow> t),
                syncedAt = None,
                driveFileId = None,
                driveId = None,
                recovered = (case m_recovered md of None \<Rightarrow> False | Some x \<Rightarrow> x),
                originalSessionId = m_originalSessionId md\<rparr>
      in (nextRecordingId d,
          d\<lparr>recordings := recordings d @ [r], nextRecordingId := nextRecordingId d + 1\<rparr>))"

definition saveChunk :: "int \<Rightarrow> string \<Rightarrow> nat \<Rightarrow> blob \<Rightarrow> db \<Rightarrow> nat \<times> db" where
  "saveChunk now sid sq b d =
     (nextChunkId d,
      d\<lparr>chunks := chunks d @
            [\<lparr>cid = nextChunkId d, sessionId = sid, cseq = sq, cblob = b, ctimestamp = now\<rparr>],
        nextChunkId := nextChunkId d + 1\<rparr>)"

definition getSessionChunks :: "string \<Rightarrow> db \<Rightarrow> chunk list" where
  \<comment> \<open>\<^verbatim>\<open>index.getAll(sessionId)\<close> in key order, then the (stable) sort on \<^verbatim>\<open>sequence\<close>\<close>
  "getSessionChunks sid d = sort_key cseq (filter (\<lambda>c. sessionId c = sid) (chunks d))"

definition clearSessionChunks :: "string \<Rightarrow> db \<Rightarrow> db" where
  "clearSessionChunks sid d = d\<lparr>chunks := filter (\<lambda>c. sessionId c \<noteq> sid) (chunks d)\<rparr>"

definition recoverFromChunks :: "string \<Rightarrow> db \<Rightarrow> blob option" where
  "recoverFromChunks sid d =
     (case map cblob (getSessionChunks sid d) of
        [] \<Rightarrow> None
      | b # bs \<Rightarrow> Some (new_Blob (b # bs) (btype b)))"

definition getUnsyncedRecordings :: "db \<Rightarrow> recording list" where
  "getUnsyncedRecordings d = filter (\<lambda>r. synced r = 0) (recordings d)"

definition getAllRecordings :: "db \<Rightarrow> recording list" where
  \<comment> \<open>newest first; the sort is stable\<close>
  "getAllRecordings d = rev (sort_key timestamp (rev (recordings d)))"

definition getRecording :: "nat \<Rightarrow> db \<Rightarrow> recording option" where
  "getRecording i d = find (\<lambda>r. rid r = i) (recordings d)"

text \<open>
  \<^verbatim>\<open>Object.assign(recording, extraFields)\<close>: the extra fields are a list of assignments,
  applied in order. These are the keys the callers of \<^verbatim>\<open>updateRecordingStatus\<close> use.
\<close>

datatype field =
    DriveFileId fid
  | DriveId fid
  | RetryCount nat
  | LastRetry nat

fun assign :: "recording \<Rightarrow> field \<Rightarrow> recording" where
  "assign r (DriveFileId x) = r\<lparr>driveFileId := Some x\<rparr>"
| "assign r (DriveId x) = r\<lparr>driveId := Some x\<rparr>"
| "assign r (RetryCount n) = r\<lparr>retryCount := n\<rparr>"
| "assign r (LastRetry t) = r\<lparr>lastRetry := Some t\<rparr>"

definition put :: "recording \<Rightarrow> db \<Rightarrow> db" where
  \<comment> \<open>\<^verbatim>\<open>store.put\<close> of a record whose key is in the store\<close>
  "put r d = d\<lparr>recordings := map (\<lambda>x. if rid x = rid r then r else x) (recordings d)\<rparr>"

definition updateRecordingStatus ::
  "nat \<Rightarrow> nat \<Rightarrow> status \<Rightarrow> field list \<Rightarrow> db \<Rightarrow> error + recording \<times> db" where
  "updateRecordingStatus now i st extraFields d =
     (case getRecording i d of
        None \<Rightarrow> Inl RecordingNotFound
      | Some recording \<Rightarrow>
          let r1 = recording\<lparr>rstatus := st, synced := (if st = Synced then 1 else 0)\<rparr>;
              r2 = (if st = Synced then r1\<lparr>syncedAt := Some now\<rparr> else r1);
              r3 = foldl assign r2 extraFields
          in Inr (r3, put r3 d))"

definition markRecordingAsSynced :: "nat \<Rightarrow> nat \<Rightarrow> fid \<Rightarrow> db \<Rightarrow> error + recording \<times> db" where
  "markRecordingAsSynced now i did d = updateRecordingStatus now i Synced [DriveId did] d"

definition incrementRetryCount :: "nat \<Rightarrow> nat \<Rightarrow> db \<Rightarrow> error + db" where
  "incrementRetryCount now i d =
     (case getRecording i d of
        None \<Rightarrow> Inr d
      | Some recording \<Rightarrow>
          (case updateRecordingStatus now i (rstatus recording)
                  [RetryCount (retryCount recording + 1), LastRetry now] d of
             Inl e \<Rightarrow> Inl e
           | Inr (_, d') \<Rightarrow> Inr d'))"

definition deleteRecording :: "nat \<Rightarrow> db \<Rightarrow> db" where
  "deleteRecording i d = d\<lparr>recordings := filter (\<lambda>r. rid r \<noteq> i) (recordings d)\<rparr>"

definition clearSyncedRecordings :: "db \<Rightarrow> nat \<times> db" where
  "clearSyncedRecordings d =
     (length (filter (\<lambda>r. synced r = 1) (recordings d)),
      d\<lparr>recordings := filter (\<lambda>r. synced r \<noteq> 1) (recordings d)\<rparr>)"

definition getOrphanedSessions :: "db \<Rightarrow> string list" where
  \<comment> \<open>\<^verbatim>\<open>[...new Set(ids)]\<close>: the distinct session ids, in order of first occurrence\<close>
  "getOrphanedSessions d =
     fold (\<lambda>s acc. if s \<in> set acc then acc else acc @ [s]) (map sessionId (chunks d)) []"

section \<open>RecorderService (js/recorder.js, unnamed/part_000)\<close>

text \<open>
  The module-level variables of the recorder. \<^verbatim>\<open>mediaRecorder\<close> is \<open>None\<close> for null and
  otherwise the MediaRecorder's \<^verbatim>\<open>state\<close>; \<^verbatim>\<open>mediaStream\<close> and \<^verbatim>\<open>chunkInterval\<close> are
  true when not null. \<^verbatim>\<open>memChunks\<close> is the in-memory array \<^verbatim>\<open>chunks\<close> and \<^verbatim>\<open>sessionId_r\<close>
  the variable \<^verbatim>\<open>sessionId\<close> (both names are taken by the database). Times are
  \<^verbatim>\<open>Date.now()\<close> values; a null or zero time is falsy. Two fields are not variables
  of the source: \<^verbatim>\<open>pendingStops\<close> lists the \<^verbatim>\<open>stop\<close> events still to fire, each with
  the \<^verbatim>\<open>onstop\<close> handler of the MediaRecorder object that was stopped (a new object
  made by \<^verbatim>\<open>start()\<close> does not cancel the event of the old one), and \<^verbatim>\<open>inflight\<close> counts
  the calls of \<^verbatim>\<open>saveCurrentChunk\<close> that are suspended at
  \<^verbatim>\<open>await StorageService.saveChunk(...)\<close>.
\<close>

datatype mr_state = Inactive | Recording | Paused

datatype handler = Completion | NoHandler

record recorder =
  mediaStream :: bool
  mediaRecorder :: "mr_state option"
  mrMimeType :: string
  pendingStops :: "handler list"
  memChunks :: "blob list"
  sessionId_r :: "string option"
  chunkSequence :: nat
  chunkInterval :: bool
  startTime :: "int option"
  pausedDuration :: int
  pauseStartTime :: "int option"
  inflight :: nat

definition truthy :: "int option \<Rightarrow> bool" where
  "truthy t = (case t of None \<Rightarrow> False | Some x \<Rightarrow> x \<noteq> 0)"

text \<open>The recorder after \<^verbatim>\<open>init\<close> has acquired the microphone.\<close>

definition initialised :: recorder where
  "initialised = \<lparr>mediaStream = True, mediaRecorder = None, mrMimeType = [],
     pendingStops = [], memChunks = [], sessionId_r = None,
     chunkSequence = 0, chunkInterval = False, startTime = None, pausedDuration = 0,
     pauseStartTime = None, inflight = 0\<rparr>"

text \<open>
  \<^verbatim>\<open>start()\<close>: \<open>newId\<close> is the session id it generates from the clock and
  \<^verbatim>\<open>Math.random()\<close>, \<open>supported\<close> the answer of \<^verbatim>\<open>MediaRecorder.isTypeSupported\<close>. The only
  guard on an existing session is \<^verbatim>\<open>mediaRecorder.state === 'recording'\<close>, which logs a
  warning and returns normally. (The function is the same in both copies of the file.)
\<close>

definition start :: "string \<Rightarrow> int \<Rightarrow> bool \<Rightarrow> recorder \<Rightarrow> error + recorder" where
  "start newId now supported r =
     (if \<not> mediaStream r then Inl NotInitialised
      else if mediaRecorder r = Some Recording then Inr r
      else Inr (r\<lparr>sessionId_r := Some newId,
                  memChunks := [],
                  chunkSequence := 0,
                  pausedDuration := 0,
                  pauseStartTime := None,
                  mediaRecorder := Some Recording,
                  mrMimeType := (if supported then ''audio/webm;codecs=opus'' else ''audio/webm''),
                  startTime := Some now,
                  chunkInterval := True\<rparr>))"

definition getState :: "recorder \<Rightarrow> mr_state" where
  "getState r = (case mediaRecorder r of None \<Rightarrow> Inactive | Some s \<Rightarrow> s)"

text \<open>
  \<^verbatim>\<open>getElapsedTime()\<close> reads the clock twice; \<open>now\<close> and \<open>now'\<close> are the two readings.
  \<^verbatim>\<open>Math.floor(elapsed / 1000)\<close> is \<open>div\<close> on \<open>int\<close>, which rounds towards minus infinity.
  The copy in unnamed/part_000 subtracts the running pause whenever \<^verbatim>\<open>pauseStartTime\<close>
  is set, whatever the MediaRecorder's state.
\<close>

definition getElapsedTime :: "int \<Rightarrow> int \<Rightarrow> recorder \<Rightarrow> int" where
  "getElapsedTime now now' r =
     (if \<not> truthy (startTime r) then 0
      else
        let elapsed = now - the (startTime r);
            elapsed = elapsed - pausedDuration r;
            elapsed = (if mediaRecorder r = Some Paused \<and> truthy (pauseStartTime r)
                       then elapsed - (now' - the (pauseStartTime r)) else elapsed)
        in elapsed div 1000)"

definition getElapsedTime_part_000 :: "int \<Rightarrow> int \<Rightarrow> recorder \<Rightarrow> int" where
  "getElapsedTime_part_000 now now' r =
     (if \<not> truthy (startTime r) then 0
      else
        let elapsed = now - the (startTime r) - pausedDuration r;
            elapsed = (if truthy (pauseStartTime r)
                       then elapsed - (now' - the (pauseStartTime r)) else elapsed)
        in elapsed div 1000)"

text \<open>
  The milliseconds \<^verbatim>\<open>getElapsedTime\<close> divides: what the claim calls
  now - startedAt - pausedDurationTotal, less the running pause.
\<close>

definition elapsed_ms :: "int \<Rightarrow> int \<Rightarrow> recorder \<Rightarrow> int" where
  "elapsed_ms now now' r =
     now - the (startTime r) - pausedDuration r -
     (if mediaRecorder r = Some Paused \<and> truthy (pauseStartTime r)
      then now' - the (pauseStartTime r) else 0)"

definition elapsed_ms_part_000 :: "int \<Rightarrow> int \<Rightarrow> recorder \<Rightarrow> int" where
  "elapsed_ms_part_000 now now' r =
     now - the (startTime r) - pausedDuration r -
     (if truthy (pauseStartTime r) then now' - the (pauseStartTime r) else 0)"

definition handleDataAvailable :: "blob \<Rightarrow> recorder \<Rightarrow> recorder" where
  "handleDataAvailable b r = (if size_of b > 0 then r\<lparr>memChunks := memChunks r @ [b]\<rparr> else r)"

definition stopChunkInterval :: "recorder \<Rightarrow> recorder" where
  "stopChunkInterval r = r\<lparr>chunkInterval := False\<rparr>"

definition handleError :: "recorder \<Rightarrow> recorder" where
  "handleError r = stopChunkInterval r"

text \<open>
  \<^verbatim>\<open>saveCurrentChunk\<close> of js/recorder.js, up to its first \<^verbatim>\<open>await\<close>: the sequence number
  is taken and the counter advanced (\<^verbatim>\<open>sequence: chunkSequence++\<close>) in the same
  synchronous stretch that hands the chunk to \<^verbatim>\<open>StorageService.saveChunk\<close>, whose
  \<^verbatim>\<open>store.add\<close> request is issued during the call. recorder.js passes the chunk as one
  object \<^verbatim>\<open>{sessionId, sequence, blob, timestamp}\<close>; the record written holds these
  fields. A chunk written while \<^verbatim>\<open>sessionId\<close> is null belongs to no session and is
  not entered in the store of the model, which lists chunks by session.
\<close>

definition saveCurrentChunk :: "int \<Rightarrow> recorder \<times> db \<Rightarrow> recorder \<times> db" where
  "saveCurrentChunk now st =
     (let r = fst st; d = snd st in
      if memChunks r = [] then (r, d)
      else
        let chunkBlob = new_Blob (memChunks r) (mrMimeType r);
            sq = chunkSequence r;
            r1 = r\<lparr>chunkSequence := chunkSequence r + 1, inflight := inflight r + 1\<rparr>
        in (case sessionId_r r of
              None \<Rightarrow> (r1, d)
            | Some sid \<Rightarrow> (r1, snd (saveChunk now sid sq chunkBlob d))))"

text \<open>The rest of that call, after the \<^verbatim>\<open>await\<close>: the in-memory chunks are dropped.\<close>

definition saveCurrentChunk_resume :: "recorder \<Rightarrow> recorder" where
  "saveCurrentChunk_resume r =
     (if inflight r = 0 then r else r\<lparr>memChunks := [], inflight := inflight r - 1\<rparr>)"

text \<open>
  The older copy (unnamed/part_000) reads \<^verbatim>\<open>chunkSequence\<close> for the call of
  \<^verbatim>\<open>saveChunk(sessionId, chunkSequence, blob)\<close> and increments it only after the
  \<^verbatim>\<open>await\<close>; it keeps the in-memory chunks.
\<close>

definition saveCurrentChunk_part_000 :: "int \<Rightarrow> recorder \<times> db \<Rightarrow> recorder \<times> db" where
  "saveCurrentChunk_part_000 now st =
     (let r = fst st; d = snd st in
      case sessionId_r r of
        None \<Rightarrow> (r, d)
      | Some sid \<Rightarrow>
          if memChunks r = [] then (r, d)
          else (r\<lparr>inflight := inflight r + 1\<rparr>,
                snd (saveChunk now sid (chunkSequence r) (new_Blob (memChunks r) (mrMimeType r)) d)))"

definition saveCurrentChunk_part_000_resume :: "recorder \<Rightarrow> recorder" where
  "saveCurrentChunk_part_000_resume r =
     (if inflight r = 0 then r
      else r\<lparr>chunkSequence := chunkSequence r + 1, inflight := inflight r - 1\<rparr>)"

text \<open>\<^verbatim>\<open>pause()\<close> flushes at once, without awaiting the flush.\<close>

definition pause :: "int \<Rightarrow> recorder \<times> db \<Rightarrow> recorder \<times> db" where
  "pause now st =
     (let r = fst st; d = snd st in
      if mediaRecorder r \<noteq> Some Recording then (r, d)
      else saveCurrentChunk now (r\<lparr>mediaRecorder := Some Paused, pauseStartTime := Some now\<rparr>, d))"

definition pause_part_000 :: "int \<Rightarrow> recorder \<times> db \<Rightarrow> recorder \<times> db" where
  "pause_part_000 now st =
     (let r = fst st; d = snd st in
      if mediaRecorder r \<noteq> Some Recording then (r, d)
      else saveCurrentChunk_part_000 now
             (r\<lparr>mediaRecorder := Some Paused, pauseStartTime := Some now\<rparr>, d))"

definition resume :: "int \<Rightarrow> recorder \<Rightarrow> recorder" where
  "resume now r =
     (if mediaRecorder r \<noteq> Some Paused then r
      else
        let r1 = (if truthy (pauseStartTime r)
                  then r\<lparr>pausedDuration := pausedDuration r + (now - the (pauseStartTime r)),
                         pauseStartTime := None\<rparr>
                  else r)
        in r1\<lparr>mediaRecorder := Some Recording\<rparr>)"

text \<open>
  \<^verbatim>\<open>stop()\<close> installs its completion handler and stops the MediaRecorder; the promise
  it returns is settled by the handler, when the \<^verbatim>\<open>stop\<close> event fires. With no
  MediaRecorder it rejects.
\<close>

definition stop :: "recorder \<Rightarrow> error + recorder" where
  "stop r =
     (case mediaRecorder r of
        None \<Rightarrow> Inl NoRecordingInProgress
      | Some s \<Rightarrow>
          let r1 = stopChunkInterval r
          in Inr (if s \<noteq> Inactive
                  then r1\<lparr>mediaRecorder := Some Inactive,
                          pendingStops := pendingStops r1 @ [Completion]\<rparr>
                  else r1))"

text \<open>
  The \<^verbatim>\<open>stop\<close> event. The completion handler builds the final blob, clears the
  session's chunks and resets \<^verbatim>\<open>chunks\<close> and \<^verbatim>\<open>sessionId\<close>; with a null \<^verbatim>\<open>sessionId\<close> the
  key range cannot be built and the handler rejects before the reset. The result is
  the blob and the duration the promise of \<^verbatim>\<open>stop()\<close> resolves with, if it does.
\<close>

definition fire_stop :: "int \<Rightarrow> recorder \<times> db \<Rightarrow> (blob \<times> int) option \<times> recorder \<times> db" where
  "fire_stop now st =
     (let r = fst st; d = snd st in
      case pendingStops r of
        [] \<Rightarrow> (None, r, d)
      | h # hs \<Rightarrow>
          let r0 = r\<lparr>pendingStops := hs\<rparr> in
          if h \<noteq> Completion then (None, r0, d)
          else
            (case sessionId_r r of
               None \<Rightarrow> (None, r0, d)
             | Some sid \<Rightarrow>
                 (Some (new_Blob (memChunks r) (mrMimeType r), getElapsedTime now now r0),
                  r0\<lparr>memChunks := [], sessionId_r := None\<rparr>,
                  clearSessionChunks sid d)))"

definition cancel :: "recorder \<times> db \<Rightarrow> recorder \<times> db" where
  "cancel st =
     (let r = stopChunkInterval (fst st); d = snd st;
          r1 = (case mediaRecorder r of
                  None \<Rightarrow> r
                | Some s \<Rightarrow>
                    if s \<noteq> Inactive
                    then r\<lparr>mediaRecorder := Some Inactive,
                           pendingStops := pendingStops r @ [NoHandler]\<rparr>
                    else r);
          d1 = (case sessionId_r r1 of None \<Rightarrow> d | Some sid \<Rightarrow> clearSessionChunks sid d)
      in (r1\<lparr>memChunks := [], sessionId_r := None\<rparr>, d1))"

text \<open>
  What can happen to a recorder, one atomic stretch of JavaScript at a time: the calls
  of the public functions, the \<^verbatim>\<open>dataavailable\<close>, \<^verbatim>\<open>stop\<close> and \<^verbatim>\<open>error\<close> events of the
  MediaRecorder, a tick of the chunk interval (only while the interval is set), and
  the continuation of a suspended \<^verbatim>\<open>saveCurrentChunk\<close>. Any list of events is an
  interleaving. \<^verbatim>\<open>stop\<close>'s handler and \<^verbatim>\<open>cancel\<close> are taken as one stretch each.
\<close>

datatype event =
    Start string int bool
  | Data blob
  | Tick int
  | Pause int
  | Resume int
  | Continue
  | Stop
  | StopEvent int
  | Cancel
  | ErrorEvent

fun step :: "event \<Rightarrow> recorder \<times> db \<Rightarrow> recorder \<times> db" where
  "step (Start newId now supported) (r, d) =
     (case start newId now supported r of Inl _ \<Rightarrow> (r, d) | Inr r' \<Rightarrow> (r', d))"
| "step (Data b) (r, d) = (if mediaRecorder r = None then (r, d) else (handleDataAvailable b r, d))"
| "step (Tick now) (r, d) = (if chunkInterval r then saveCurrentChunk now (r, d) else (r, d))"
| "step (Pause now) (r, d) = pause now (r, d)"
| "step (Resume now) (r, d) = (resume now r, d)"
| "step Continue (r, d) = (saveCurrentChunk_resume r, d)"
| "step Stop (r, d) = (case stop r of Inl _ \<Rightarrow> (r, d) | Inr r' \<Rightarrow> (r', d))"
| "step (StopEvent now) (r, d) = snd (fire_stop now (r, d))"
| "step Cancel (r, d) = cancel (r, d)"
| "step ErrorEvent (r, d) = (handleError r, d)"



text \<open>
  The same events on the older copy (unnamed/part_000): its flush advances the
  counter after the \<^verbatim>\<open>await\<close>, and its error handler leaves the interval running.
\<close>

fun step_part_000 :: "event \<Rightarrow> recorder \<times> db \<Rightarrow> recorder \<times> db" where
  "step_part_000 (Tick now) (r, d) =
     (if chunkInterval r then saveCurrentChunk_part_000 now (r, d) else (r, d))"
| "step_part_000 (Pause now) (r, d) = pause_part_000 now (r, d)"
| "step_part_000 Continue (r, d) = (saveCurrentChunk_part_000_resume r, d)"
| "step_part_000 ErrorEvent (r, d) = (r, d)"
| "step_part_000 e (r, d) = step e (r, d)"



section \<open>DriveService (js/drive.js)\<close>

text \<open>
  The module state of the Drive service together with the part of Google Drive it talks
  to: the folders and files on the server and the next id the server will generate.
  \<^verbatim>\<open>requests\<close> and \<^verbatim>\<open>signIns\<close> count the HTTP requests and the token requests made so
  far; they index what the outside world answers.
\<close>

record folder =
  folderId :: fid
  folderName :: string
  folderParent :: fid

record dfile =
  dfileId :: fid
  dfileName :: string
  dfileParent :: fid
  dfileBlob :: blob

record drive =
  isInitialised :: bool
  isSignedIn :: bool
  accessToken :: "string option"
  folderCache :: "string \<rightharpoonup> fid"
  folders :: "folder list"
  files :: "dfile list"
  nextId :: nat
  requests :: nat
  signIns :: nat

text \<open>
  The outside world: the answer to the \<open>k\<close>-th HTTP request (a status, or no answer at
  all, in which case \<^verbatim>\<open>fetch\<close> rejects with an error that has no status), and the
  answer of the token client to the \<open>k\<close>-th sign-in (a token, an error, or nothing ever).
\<close>

datatype http = Status nat | Unreachable

datatype token_response = Granted string | Denied | NoAnswer

record world =
  response :: "nat \<Rightarrow> http"
  token :: "nat \<Rightarrow> token_response"



text \<open>
  One \<^verbatim>\<open>fetch\<close> followed by the check of \<^verbatim>\<open>response.ok\<close>: the error thrown on a status
  outside 200..299 carries the status.
\<close>

definition fetch_ok :: "world \<Rightarrow> drive \<Rightarrow> error option \<times> drive" where
  "fetch_ok w st =
     (let st1 = st\<lparr>requests := requests st + 1\<rparr> in
      case response w (requests st) of
        Unreachable \<Rightarrow> (Some NetworkError, st1)
      | Status s \<Rightarrow> if 200 \<le> s \<and> s \<le> 299 then (None, st1) else (Some (HttpError s), st1))"

definition findFolder :: "world \<Rightarrow> string \<Rightarrow> fid \<Rightarrow> drive \<Rightarrow> (error + fid option) \<times> drive" where
  "findFolder w name parentId st =
     (case fetch_ok w st of
        (Some e, st1) \<Rightarrow> (Inl e, st1)
      | (None, st1) \<Rightarrow>
          (Inr (map_option folderId
                  (find (\<lambda>f. folderName f = name \<and> folderParent f = parentId) (folders st1))),
           st1))"

definition createFolder :: "world \<Rightarrow> string \<Rightarrow> fid \<Rightarrow> drive \<Rightarrow> (error + fid) \<times> drive" where
  "createFolder w name parentId st =
     (case fetch_ok w st of
        (Some e, st1) \<Rightarrow> (Inl e, st1)
      | (None, st1) \<Rightarrow>
          (Inr (Id (nextId st1)),
           st1\<lparr>folders := folders st1 @
                   [\<lparr>folderId = Id (nextId st1), folderName = name, folderParent = parentId\<rparr>],
               nextId := nextId st1 + 1\<rparr>))"


text \<open>\<^verbatim>\<open>path.split('/')\<close>, and the parts that survive \<^verbatim>\<open>p && p.trim() !== ''\<close>.\<close>

fun split_at :: "char \<Rightarrow> string \<Rightarrow> string list" where
  "split_at c [] = [[]]"
| "split_at c (x # xs) =
     (if x = c then [] # split_at c xs
      else (case split_at c xs of [] \<Rightarrow> [[x]] | p # ps \<Rightarrow> (x # p) # ps))"

definition whitespace :: "char \<Rightarrow> bool" where
  "whitespace c = (c \<in> set [CHR '' '', CHR 0x09, CHR 0x0A, CHR 0x0B, CHR 0x0C, CHR 0x0D])"

definition path_parts :: "string \<Rightarrow> string list" where
  "path_parts path = filter (\<lambda>p. p \<noteq> [] \<and> \<not> list_all whitespace p) (split_at CHR ''/'' path)"

text \<open>
  The loop of \<^verbatim>\<open>ensureFolderPath\<close> over the remaining parts, with its variables
  \<^verbatim>\<open>parentId\<close> and \<^verbatim>\<open>currentPath\<close>. A failed request throws out of the loop; the cache
  entries written so far stay.
\<close>

fun ensureFolders ::
  "world \<Rightarrow> string list \<Rightarrow> fid \<Rightarrow> string \<Rightarrow> drive \<Rightarrow> (error + fid) \<times> drive" where
  "ensureFolders w [] parentId currentPath st = (Inr parentId, st)"
| "ensureFolders w (name # rest) parentId currentPath st =
     (let currentPath = currentPath @ (if currentPath \<noteq> [] then ''/'' else []) @ name in
      case folderCache st currentPath of
        Some cached \<Rightarrow> ensureFolders w rest cached currentPath st
      | None \<Rightarrow>
          (case findFolder w name parentId st of
             (Inl e, st1) \<Rightarrow> (Inl e, st1)
           | (Inr found, st1) \<Rightarrow>
               (case (case found of
                        Some i \<Rightarrow> (Inr i, st1)
                      | None \<Rightarrow> createFolder w name parentId st1) of
                  (Inl e, st2) \<Rightarrow> (Inl e, st2)
                | (Inr i, st2) \<Rightarrow>
                    ensureFolders w rest i currentPath
                      (st2\<lparr>folderCache := (folderCache st2)(currentPath \<mapsto> i)\<rparr>))))"

definition ensureFolderPath :: "world \<Rightarrow> string \<Rightarrow> drive \<Rightarrow> (error + fid) \<times> drive" where
  "ensureFolderPath w path st =
     (case folderCache st path of
        Some cached \<Rightarrow> (Inr cached, st)
      | None \<Rightarrow>
          (case ensureFolders w (path_parts path) Root [] st of
             (Inl e, st1) \<Rightarrow> (Inl e, st1)
           | (Inr parentId, st1) \<Rightarrow>
               (Inr parentId, st1\<lparr>folderCache := (folderCache st1)(path \<mapsto> parentId)\<rparr>)))"


record upload_result =
  success :: bool
  fileId :: fid
  resFileName :: string
  resFolderPath :: string




definition no_duplicate_folders :: "drive \<Rightarrow> bool" where
  "no_duplicate_folders st = distinct (map (\<lambda>f. (folderName f, folderParent f)) (folders st))"

section \<open>App: crash recovery (the copy in js/drive.js)\<close>

text \<open>
  \<^verbatim>\<open>checkForRecovery\<close> runs once in \<^verbatim>\<open>init\<close>, before the event listeners are set up.
  The body of its loop recovers one orphaned session: a payload is saved only when
  \<^verbatim>\<open>blob && blob.size > 0\<close>, and the session's chunks are cleared either way.
\<close>

definition recoverSession :: "date \<Rightarrow> string \<Rightarrow> db \<Rightarrow> db" where
  "recoverSession now sid d =
     (let d1 = (case recoverFromChunks sid d of
                  None \<Rightarrow> d
                | Some b \<Rightarrow>
                    if size_of b > 0
                    then snd (saveRecording now b
                           (no_metadata\<lparr>m_recovered := Some True,
                                        m_originalSessionId := Some sid\<rparr>) d)
                    else d)
      in clearSessionChunks sid d1)"

definition checkForRecovery :: "date \<Rightarrow> db \<Rightarrow> db" where
  "checkForRecovery now d = fold (recoverSession now) (getOrphanedSessions d) d"

text \<open>What recovery is expected to build for a session: its chunks' contents, in sequence order.\<close>

definition payload :: "string \<Rightarrow> db \<Rightarrow> nat list" where
  "payload sid d = concat (map (content \<circ> cblob) (getSessionChunks sid d))"

text \<open>The catalog entries of \<open>d'\<close> that were not in \<open>d\<close> (entries are only ever appended).\<close>

definition added :: "db \<Rightarrow> db \<Rightarrow> recording list" where
  "added d d' = drop (length (recordings d)) (recordings d')"

text \<open>
  The entry one session contributes, as (status, recovered flag, blob): none when the
  session has no chunk or its payload is empty.
\<close>

definition ent :: "string \<Rightarrow> db \<Rightarrow> (status \<times> bool \<times> blob) list" where
  "ent s d = (case recoverFromChunks s d of None \<Rightarrow> []
              | Some b \<Rightarrow> if 0 < size_of b then [(Pending, True, b)] else [])"

section \<open>App: the sync pass\<close>

text \<open>
  The uploader the pass calls, \<^verbatim>\<open>DriveService.uploadRecording(blob, fileName, path)\<close>,
  as a parameter: a function on the state \<open>'w\<close> of the remote side that returns an
  error or a result, or never returns (\<open>None\<close>). Quantifying over it covers every
  pattern of failures.
\<close>

type_synonym 'w uploader =
  "blob \<Rightarrow> string \<Rightarrow> string \<Rightarrow> 'w \<Rightarrow> ((error + upload_result) \<times> 'w) option"

text \<open>An uploader that returns on every call (with a result or an error).\<close>

definition returns :: "'w uploader \<Rightarrow> bool" where
  "returns up = (\<forall>b f p w. up b f p w \<noteq> None)"

definition MAX_RETRY_COUNT :: nat where
  "MAX_RETRY_COUNT = 5"

subsection \<open>The copy in js/drive.js\<close>

text \<open>
  The variables of \<^verbatim>\<open>App\<close> that the pass reads and writes, \<^verbatim>\<open>navigator.onLine\<close>, the
  database and the remote side. \<^verbatim>\<open>handedOver\<close> is not a variable of the source: it
  lists, in order, the recordings whose blob was passed to the uploader.
\<close>

record 'w app =
  isSyncing :: bool
  onLine :: bool
  store :: db
  remote :: 'w
  handedOver :: "recording list"

text \<open>The \<^verbatim>\<open>catch\<close> block of the loop body; an error thrown inside it leaves the loop.\<close>

definition record_failure :: "nat \<Rightarrow> nat \<Rightarrow> db \<Rightarrow> error option \<times> db" where
  "record_failure now i d =
     (case updateRecordingStatus now i Failed [] d of
        Inl e \<Rightarrow> (Some e, d)
      | Inr (_, d1) \<Rightarrow>
          (case incrementRetryCount now i d1 of
             Inl e \<Rightarrow> (Some e, d1)
           | Inr d2 \<Rightarrow> (None, d2)))"

text \<open>
  The body of the \<^verbatim>\<open>for\<close> loop for one recording of the list read at the start of the
  pass. The result is the error that leaves the loop, if any.
\<close>

definition syncItem ::
  "'w uploader \<Rightarrow> nat \<Rightarrow> recording \<Rightarrow> 'w app \<Rightarrow> (error option \<times> 'w app) option" where
  "syncItem up now recording a =
     (if MAX_RETRY_COUNT \<le> retryCount recording then Some (None, a)
      else
        let caught = (\<lambda>a. case record_failure now (rid recording) (store a) of
                            (e, d) \<Rightarrow> Some (e, a\<lparr>store := d\<rparr>)) in
        case updateRecordingStatus now (rid recording) Uploading [] (store a) of
          Inl e \<Rightarrow> caught a
        | Inr (_, d1) \<Rightarrow>
            (case up (rblob recording) (fileName recording) (drivePath recording) (remote a) of
               None \<Rightarrow> None
             | Some (res, w1) \<Rightarrow>
                 let a1 = a\<lparr>store := d1, remote := w1,
                            handedOver := handedOver a @ [recording]\<rparr> in
                 (case res of
                    Inl e \<Rightarrow> caught a1
                  | Inr result \<Rightarrow>
                      (case updateRecordingStatus now (rid recording) Synced
                              [DriveFileId (fileId result)] d1 of
                         Inl e \<Rightarrow> caught a1
                       | Inr (_, d2) \<Rightarrow> Some (None, a1\<lparr>store := d2\<rparr>)))))"

fun syncLoop ::
  "'w uploader \<Rightarrow> nat \<Rightarrow> recording list \<Rightarrow> 'w app \<Rightarrow> (error option \<times> 'w app) option" where
  "syncLoop up now [] a = Some (None, a)"
| "syncLoop up now (r # rs) a =
     (case syncItem up now r a of
        None \<Rightarrow> None
      | Some (Some e, a1) \<Rightarrow> Some (Some e, a1)
      | Some (None, a1) \<Rightarrow> syncLoop up now rs a1)"

text \<open>
  The pass is entered in one synchronous stretch: the guard is tested and
  \<^verbatim>\<open>isSyncing\<close> is set before the first \<^verbatim>\<open>await\<close>. It is left through \<^verbatim>\<open>finally\<close>.
\<close>

definition syncRecordings_enter :: "('w \<Rightarrow> bool) \<Rightarrow> 'w app \<Rightarrow> bool \<times> 'w app" where
  "syncRecordings_enter auth a =
     (if isSyncing a \<or> \<not> onLine a \<or> \<not> auth (remote a) then (False, a)
      else (True, a\<lparr>isSyncing := True\<rparr>))"

definition syncRecordings_leave :: "'w app \<Rightarrow> 'w app" where
  "syncRecordings_leave a = a\<lparr>isSyncing := False\<rparr>"

definition syncRecordings ::
  "'w uploader \<Rightarrow> ('w \<Rightarrow> bool) \<Rightarrow> nat \<Rightarrow> 'w app \<Rightarrow> (error option \<times> 'w app) option" where
  "syncRecordings up auth now a =
     (case syncRecordings_enter auth a of
        (False, a0) \<Rightarrow> Some (None, a0)
      | (True, a1) \<Rightarrow>
          let recordings = getUnsyncedRecordings (store a1) in
          if recordings = [] then Some (None, syncRecordings_leave a1)
          else (case syncLoop up now recordings a1 of
                  None \<Rightarrow> None
                | Some (e, a2) \<Rightarrow> Some (e, syncRecordings_leave a2)))"

text \<open>
  Passes that run one after the other, triggered at the given times; a pass that ends
  with an error is followed by the next one all the same.
\<close>

fun syncPasses :: "'w uploader \<Rightarrow> ('w \<Rightarrow> bool) \<Rightarrow> nat list \<Rightarrow> 'w app \<Rightarrow> 'w app option" where
  "syncPasses up auth [] a = Some a"
| "syncPasses up auth (now # nows) a =
     (case syncRecordings up auth now a of
        None \<Rightarrow> None
      | Some (_, a1) \<Rightarrow> syncPasses up auth nows a1)"

subsection \<open>The copy in js/app.js\<close>

text \<open>
  js/app.js reads the queue from Supabase. A row of its \<^verbatim>\<open>recordings\<close> table, and the
  client (null until \<^verbatim>\<open>init\<close> has found the library).
\<close>

record row =
  row_id :: nat
  row_duration :: int
  storage_path :: string
  synced_to_drive :: nat
  drive_file_id :: "fid option"
  created_at :: nat

record supabase =
  client :: bool
  table :: "row list"

definition getUnsyncedToDriveRecords :: "supabase \<Rightarrow> error + row list" where
  "getUnsyncedToDriveRecords sb =
     (if \<not> client sb then Inl SupabaseNotInitialised
      else Inr (sort_key created_at (filter (\<lambda>r. synced_to_drive r = 0) (table sb))))"

definition markSyncedToDrive :: "nat \<Rightarrow> fid option \<Rightarrow> supabase \<Rightarrow> error + supabase" where
  "markSyncedToDrive i did sb =
     (if \<not> client sb then Inl SupabaseNotInitialised
      else Inr (sb\<lparr>table := map (\<lambda>r. if row_id r = i
                                      then r\<lparr>synced_to_drive := 1, drive_file_id := did\<rparr>
                                      else r) (table sb)\<rparr>))"

datatype sync_status = StatusSyncing | StatusSynced | StatusError | StatusPending | StatusDisconnected

record 'w app_js =
  isSyncing_js :: bool
  syncStatus :: sync_status
  store_js :: db
  supabase_js :: supabase
  remote_js :: 'w
  handedOver_js :: "row list"

text \<open>
  Here the uploader is called with the row as its only argument, and the result's
  \<^verbatim>\<open>id\<close> (a property \<^verbatim>\<open>uploadRecording\<close> does not set) is what is written back, so the
  Drive id recorded is undefined: no \<^verbatim>\<open>driveId\<close> is assigned locally and
  \<^verbatim>\<open>drive_file_id\<close> is \<open>None\<close>. The loop body has no \<^verbatim>\<open>try\<close> of its own.
\<close>

definition syncItem_js ::
  "(row \<Rightarrow> 'w \<Rightarrow> ((error + upload_result) \<times> 'w) option) \<Rightarrow> nat \<Rightarrow> row \<Rightarrow> 'w app_js \<Rightarrow>
   (error option \<times> 'w app_js) option" where
  "syncItem_js up now recording a =
     (case up recording (remote_js a) of
        None \<Rightarrow> None
      | Some (res, w1) \<Rightarrow>
          let a1 = a\<lparr>remote_js := w1, handedOver_js := handedOver_js a @ [recording]\<rparr> in
          (case res of
             Inl e \<Rightarrow> Some (Some e, a1)
           | Inr driveFile \<Rightarrow>
               (case updateRecordingStatus now (row_id recording) Synced [] (store_js a1) of
                  Inl e \<Rightarrow> Some (Some e, a1)
                | Inr (_, d1) \<Rightarrow>
                    (case markSyncedToDrive (row_id recording) None (supabase_js a1) of
                       Inl e \<Rightarrow> Some (Some e, a1\<lparr>store_js := d1\<rparr>)
                     | Inr sb1 \<Rightarrow> Some (None, a1\<lparr>store_js := d1, supabase_js := sb1\<rparr>)))))"

fun syncLoop_js ::
  "(row \<Rightarrow> 'w \<Rightarrow> ((error + upload_result) \<times> 'w) option) \<Rightarrow> nat \<Rightarrow> row list \<Rightarrow> 'w app_js \<Rightarrow>
   (error option \<times> 'w app_js) option" where
  "syncLoop_js up now [] a = Some (None, a)"
| "syncLoop_js up now (r # rs) a =
     (case syncItem_js up now r a of
        None \<Rightarrow> None
      | Some (Some e, a1) \<Rightarrow> Some (Some e, a1)
      | Some (None, a1) \<Rightarrow> syncLoop_js up now rs a1)"

definition syncRecordings_js_enter :: "('w \<Rightarrow> bool) \<Rightarrow> 'w app_js \<Rightarrow> bool \<times> 'w app_js" where
  "syncRecordings_js_enter auth a =
     (if isSyncing_js a \<or> \<not> auth (remote_js a) then (False, a)
      else (True, a\<lparr>isSyncing_js := True, syncStatus := StatusSyncing\<rparr>))"

definition syncRecordings_js_leave :: "'w app_js \<Rightarrow> 'w app_js" where
  "syncRecordings_js_leave a = a\<lparr>isSyncing_js := False\<rparr>"

text \<open>
  The pass of js/app.js. Its one \<^verbatim>\<open>catch\<close> is around the whole loop: the first error
  sets the status to \<^verbatim>\<open>error\<close> and ends the pass; the error itself is swallowed.
\<close>

definition syncRecordings_js ::
  "(row \<Rightarrow> 'w \<Rightarrow> ((error + upload_result) \<times> 'w) option) \<Rightarrow> ('w \<Rightarrow> bool) \<Rightarrow> nat \<Rightarrow> 'w app_js \<Rightarrow>
   'w app_js option" where
  "syncRecordings_js up auth now a =
     (case syncRecordings_js_enter auth a of
        (False, a0) \<Rightarrow> Some a0
      | (True, a1) \<Rightarrow>
          (case getUnsyncedToDriveRecords (supabase_js a1) of
             Inl e \<Rightarrow> Some (syncRecordings_js_leave (a1\<lparr>syncStatus := StatusError\<rparr>))
           | Inr unsynced \<Rightarrow>
               if unsynced = []
               then Some (syncRecordings_js_leave (a1\<lparr>syncStatus := StatusSynced,
                                                      isSyncing_js := False\<rparr>))
               else (case syncLoop_js up now unsynced a1 of
                       None \<Rightarrow> None
                     | Some (Some e, a2) \<Rightarrow>
                         Some (syncRecordings_js_leave (a2\<lparr>syncStatus := StatusError\<rparr>))
                     | Some (None, a2) \<Rightarrow>
                         Some (syncRecordings_js_leave (a2\<lparr>syncStatus := StatusSynced\<rparr>)))))"

subsection \<open>Triggers of the pass, interleaved\<close>

text \<open>
  JavaScript runs one stretch of code at a time and switches only at an \<^verbatim>\<open>await\<close>. An
  invocation of \<^verbatim>\<open>syncRecordings\<close> is therefore: triggered (not yet run), then, if it
  passes the guard, inside the pass with some number of suspension points still ahead,
  then returned, either at the guard (\<open>Returned False\<close>) or through \<^verbatim>\<open>finally\<close> after the
  pass (\<open>Returned True\<close>).

  An event of a schedule is either \<open>Run i f\<close>, invocation \<open>i\<close> runs its next stretch, or
  \<open>Env f\<close>, something else runs (a handler, a change of connectivity, a sign-out). \<open>f\<close>
  is what the stretch does to the rest of the state; no stretch other than the entry
  and the exit of a pass writes the flag, so an \<open>f\<close> that changes it is not an event of
  the program and is skipped. (The early exit of js/app.js writes \<open>false\<close> in the same
  stretch as its \<^verbatim>\<open>finally\<close>.) The scheduler is written once, over the flag, the entry
  and the exit, and used for both copies of the pass.
\<close>

datatype invocation = Triggered nat | Inside nat | Returned bool

datatype 's sched_event = Run nat "'s \<Rightarrow> 's" | Env "'s \<Rightarrow> 's"

definition stretch :: "('s \<Rightarrow> bool) \<Rightarrow> ('s \<Rightarrow> 's) \<Rightarrow> 's \<Rightarrow> 's" where
  "stretch flag f s = (if flag (f s) = flag s then f s else s)"

fun sched_step ::
  "('s \<Rightarrow> bool) \<Rightarrow> ('s \<Rightarrow> bool \<times> 's) \<Rightarrow> ('s \<Rightarrow> 's) \<Rightarrow> 's sched_event \<Rightarrow>
   's \<times> invocation list \<Rightarrow> 's \<times> invocation list" where
  "sched_step flag enter leave (Env f) (s, invs) = (stretch flag f s, invs)"
| "sched_step flag enter leave (Run i f) (s, invs) =
     (if length invs \<le> i then (s, invs)
      else
        case invs ! i of
          Triggered n \<Rightarrow>
            (case enter s of
               (True, s') \<Rightarrow> (s', invs[i := Inside n])
             | (False, s') \<Rightarrow> (s', invs[i := Returned False]))
        | Inside (Suc n) \<Rightarrow> (stretch flag f s, invs[i := Inside n])
        | Inside 0 \<Rightarrow> (leave s, invs[i := Returned True])
        | Returned b \<Rightarrow> (s, invs))"

definition sched_run ::
  "('s \<Rightarrow> bool) \<Rightarrow> ('s \<Rightarrow> bool \<times> 's) \<Rightarrow> ('s \<Rightarrow> 's) \<Rightarrow> 's sched_event list \<Rightarrow>
   's \<times> invocation list \<Rightarrow> 's \<times> invocation list" where
  "sched_run flag enter leave evs st = fold (sched_step flag enter leave) evs st"

fun inside :: "invocation \<Rightarrow> bool" where
  "inside (Inside n) = True"
| "inside _ = False"

text \<open>Single flight: at most one invocation is inside the pass, and the flag says whether one is.\<close>

definition single_flight :: "('s \<Rightarrow> bool) \<Rightarrow> 's \<times> invocation list \<Rightarrow> bool" where
  "single_flight flag st =
     (length (filter inside (snd st)) \<le> 1 \<and> (flag (fst st) = (filter inside (snd st) \<noteq> [])))"

text \<open>The two copies of the pass, as schedulers.\<close>

definition run_triggers ::
  "('w \<Rightarrow> bool) \<Rightarrow> 'w app sched_event list \<Rightarrow> 'w app \<times> invocation list \<Rightarrow>
   'w app \<times> invocation list" where
  "run_triggers auth = sched_run isSyncing (syncRecordings_enter auth) syncRecordings_leave"

definition run_triggers_js ::
  "('w \<Rightarrow> bool) \<Rightarrow> 'w app_js sched_event list \<Rightarrow> 'w app_js \<times> invocation list \<Rightarrow>
   'w app_js \<times> invocation list" where
  "run_triggers_js auth =
     sched_run isSyncing_js (syncRecordings_js_enter auth) syncRecordings_js_leave"

section \<open>Example data\<close>

text \<open>Concrete stores that the closed theorems below evaluate the operations on.\<close>

definition audio :: "nat list \<Rightarrow> blob" where
  "audio bs = \<lparr>content = bs, btype = ''audio/webm''\<rparr>"

definition rec0 :: recording where
  "rec0 = \<lparr>rid = 1, rblob = audio [1, 2, 3], timestamp = 10,
     duration = 3, fileName = ''a.webm'', drivePath = ''recordings/2024/01/01'',
     rstatus = Synced, synced = 1, retryCount = 0, lastRetry = None, fileSize = 3,
     mimeType = ''audio/webm'', syncedAt = Some 20, driveFileId = Some (Id 1), driveId = None,
     recovered = False, originalSessionId = None\<rparr>"

definition rec1 :: recording where
  "rec1 = rec0\<lparr>rstatus := Failed, synced := 0, syncedAt := None, driveFileId := None\<rparr>"

definition db_of :: "recording list \<Rightarrow> db" where
  "db_of rs = \<lparr>recordings = rs, nextRecordingId = 100, chunks = [], nextChunkId = 1\<rparr>"

definition date0 :: date where
  "date0 = \<lparr>instant = 1700000000000, fullYear = 2023, month0 = 10, dayOfMonth = 14,
     hours = 22, minutes = 13, seconds = 20\<rparr>"

definition chunk_of :: "nat \<Rightarrow> string \<Rightarrow> nat \<Rightarrow> nat list \<Rightarrow> chunk" where
  "chunk_of k s n bs = \<lparr>cid = k, sessionId = s, cseq = n, cblob = audio bs, ctimestamp = 5\<rparr>"

definition chunk_db :: "chunk list \<Rightarrow> db" where
  "chunk_db cs = \<lparr>recordings = [], nextRecordingId = 1, chunks = cs, nextChunkId = 100\<rparr>"

text \<open>A paused session with one flushed chunk, five seconds of earlier pauses and data in memory.\<close>

definition paused_session :: recorder where
  "paused_session = \<lparr>mediaStream = True, mediaRecorder = Some Paused,
     mrMimeType = ''audio/webm'', pendingStops = [], memChunks = [audio [7, 8]],
     sessionId_r = Some ''session_1'', chunkSequence = 1, chunkInterval = True,
     startTime = Some 1000, pausedDuration = 5000, pauseStartTime = Some 40000,
     inflight = 0\<rparr>"


text \<open>
  A signed-in Drive service with an empty folder cache and an empty Drive, and the
  world in which the first HTTP requests are answered with the given statuses, every
  later one with 200, and sign-in always succeeds.
\<close>

definition signed_in :: drive where
  "signed_in = \<lparr>isInitialised = True, isSignedIn = True, accessToken = Some ''token_0'',
     folderCache = Map.empty, folders = [], files = [], nextId = 1, requests = 0,
     signIns = 0\<rparr>"

definition answering :: "nat list \<Rightarrow> world" where
  "answering ss = \<lparr>response = (\<lambda>k. if k < length ss then Status (ss ! k) else Status 200),
     token = (\<lambda>k. Granted ''token'')\<rparr>"

text \<open>The world in which no request is answered and every sign-in is refused.\<close>

definition offline_world :: world where
  "offline_world = \<lparr>response = (\<lambda>k. Unreachable), token = (\<lambda>k. Denied)\<rparr>"

text \<open>
  A catalog of two unsynced recordings, the first of which has used up its retries,
  an app that is online and idle, and uploaders (with no remote state) that always
  succeed, or fail on one file name.
\<close>

definition dead_letter :: recording where
  "dead_letter = rec1\<lparr>rid := 1, fileName := ''first.webm'', retryCount := 5, lastRetry := Some 50\<rparr>"

definition waiting :: "nat \<Rightarrow> string \<Rightarrow> recording" where
  "waiting i name = rec1\<lparr>rid := i, fileName := name, rstatus := Pending\<rparr>"

definition idle_app :: "recording list \<Rightarrow> unit app" where
  "idle_app rs = \<lparr>isSyncing = False, onLine = True, store = db_of rs, remote = (),
     handedOver = []\<rparr>"

definition uploaded_as :: "string \<Rightarrow> string \<Rightarrow> upload_result" where
  "uploaded_as name path = \<lparr>success = True, fileId = Id 7, resFileName = name,
     resFolderPath = path\<rparr>"

definition always_ok :: "unit uploader" where
  "always_ok b name path w = Some (Inr (uploaded_as name path), w)"

definition failing_on :: "string \<Rightarrow> unit uploader" where
  "failing_on bad b name path w =
     Some (if name = bad then Inl (HttpError 500) else Inr (uploaded_as name path), w)"

text \<open>The same for js/app.js: two unsynced rows, and an uploader that fails on the first.\<close>

definition row_of :: "nat \<Rightarrow> row" where
  "row_of i = \<lparr>row_id = i, row_duration = 3, storage_path = ''r.webm'', synced_to_drive = 0,
     drive_file_id = None, created_at = 10 * i\<rparr>"

definition idle_app_js :: "recording list \<Rightarrow> row list \<Rightarrow> unit app_js" where
  "idle_app_js rs rows = \<lparr>isSyncing_js = False, syncStatus = StatusPending, store_js = db_of rs,
     supabase_js = \<lparr>client = True, table = rows\<rparr>, remote_js = (), handedOver_js = []\<rparr>"

definition failing_on_row :: "nat \<Rightarrow> row \<Rightarrow> unit \<Rightarrow> ((error + upload_result) \<times> unit) option" where
  "failing_on_row bad r w =
     Some (if row_id r = bad then Inl (HttpError 500) else Inr (uploaded_as [] []), w)"

chapter \<open>Properties\<close>

section \<open>The recording catalog\<close>

lemma getRecording_rid: "getRecording i d = Some r \<Longrightarrow> rid r = i"
  by (auto simp: getRecording_def dest: find_Some_iff[THEN iffD1])

text \<open>
  Claim C10, as stated, fails: \<^verbatim>\<open>incrementRetryCount\<close> goes through
  \<^verbatim>\<open>updateRecordingStatus\<close>, which stamps \<^verbatim>\<open>syncedAt\<close> whenever the status it is given
  is \<^verbatim>\<open>synced\<close>. On a synced recording (stamped at 20) an increment at time 99 moves
  \<^verbatim>\<open>syncedAt\<close> to 99, so a field other than \<^verbatim>\<open>retryCount\<close> and \<^verbatim>\<open>lastRetry\<close> changes.
\<close>

theorem incrementRetryCount_touches_syncedAt:
  "getRecording 1 (db_of [rec0]) = Some rec0 \<and>
   syncedAt rec0 = Some 20 \<and>
   incrementRetryCount 99 1 (db_of [rec0]) =
     Inr (db_of [rec0\<lparr>retryCount := 1, lastRetry := Some 99, syncedAt := Some 99\<rparr>])"
  by (simp add: incrementRetryCount_def updateRecordingStatus_def getRecording_def put_def
      db_of_def rec0_def Let_def)

text \<open>
  Claim C10, amended: for an id in the catalog, \<^verbatim>\<open>incrementRetryCount\<close> rewrites exactly
  that recording: \<^verbatim>\<open>retryCount\<close> grows by one and \<^verbatim>\<open>lastRetry\<close> is set to the current
  time; the status, blob, file name, Drive path and every other field keep their
  values, except that \<^verbatim>\<open>synced\<close> is recomputed from the (unchanged) status and, when
  the status is \<^verbatim>\<open>synced\<close>, \<^verbatim>\<open>syncedAt\<close> is set to the current time. Every other recording
  and the rest of the database are untouched. For an id that is not in the catalog
  the call completes and changes nothing.
\<close>

theorem incrementRetryCount_frame:
  "(getRecording i d = Some r \<longrightarrow>
      incrementRetryCount now i d =
        Inr (d\<lparr>recordings := map (\<lambda>x. if rid x = i
               then r\<lparr>synced := (if rstatus r = Synced then 1 else 0),
                      syncedAt := (if rstatus r = Synced then Some now else syncedAt r),
                      retryCount := retryCount r + 1,
                      lastRetry := Some now\<rparr>
               else x) (recordings d)\<rparr>)) \<and>
   (getRecording i d = None \<longrightarrow> incrementRetryCount now i d = Inr d)"
  by (auto simp: incrementRetryCount_def updateRecordingStatus_def put_def Let_def
      dest: getRecording_rid)

theorem incrementRetryCount_frame_witness:
  "getRecording 1 (db_of [rec1]) = Some rec1 \<and>
   incrementRetryCount 99 1 (db_of [rec1]) =
     Inr (db_of [rec1\<lparr>retryCount := 1, lastRetry := Some 99\<rparr>]) \<and>
   getRecording 5 (db_of [rec1]) = None \<and>
   incrementRetryCount 99 5 (db_of [rec1]) = Inr (db_of [rec1])"
  using incrementRetryCount_frame[of 1 "db_of [rec1]" rec1 99]
    incrementRetryCount_frame[of 5 "db_of [rec1]" rec1 99]
  by (simp add: getRecording_def db_of_def rec0_def rec1_def)

section \<open>Crash recovery\<close>


lemma getOrphaned_aux:
  "distinct acc \<Longrightarrow>
   distinct (fold (\<lambda>s acc. if s \<in> set acc then acc else acc @ [s]) xs acc) \<and>
   set (fold (\<lambda>s acc. if s \<in> set acc then acc else acc @ [s]) xs acc) = set acc \<union> set xs"
  by (induction xs arbitrary: acc) auto

lemma distinct_getOrphanedSessions: "distinct (getOrphanedSessions d)"
  using getOrphaned_aux[of "[]" "map sessionId (chunks d)"] by (simp add: getOrphanedSessions_def)

lemma set_getOrphanedSessions: "set (getOrphanedSessions d) = sessionId ` set (chunks d)"
  using getOrphaned_aux[of "[]" "map sessionId (chunks d)"] by (simp add: getOrphanedSessions_def)

lemma getSessionChunks_clear_other:
  "s \<noteq> t \<Longrightarrow> getSessionChunks s (clearSessionChunks t d) = getSessionChunks s d"
  by (auto simp: getSessionChunks_def clearSessionChunks_def intro!: arg_cong[where f="sort_key cseq"] filter_cong)

lemma chunks_recoverSession:
  "chunks (recoverSession now t d) = filter (\<lambda>c. sessionId c \<noteq> t) (chunks d)"
  by (auto simp: recoverSession_def clearSessionChunks_def saveRecording_def Let_def split: option.splits)

lemma payload_recoverSession_other:
  "s \<noteq> t \<Longrightarrow> getSessionChunks s (recoverSession now t d) = getSessionChunks s d"
  by (auto simp: getSessionChunks_def chunks_recoverSession intro!: arg_cong[where f="sort_key cseq"] filter_cong)

lemma ent_recoverSession_other: "s \<noteq> t \<Longrightarrow> ent s (recoverSession now t d) = ent s d"
  by (simp add: ent_def recoverFromChunks_def payload_recoverSession_other)

lemma recordings_recoverSession:
  "\<exists>e. recordings (recoverSession now t d) = recordings d @ e \<and>
       (\<forall>r \<in> set e. originalSessionId r = Some t) \<and>
       map (\<lambda>r. (rstatus r, recovered r, rblob r)) e = ent t d"
  by (auto simp: recoverSession_def ent_def clearSessionChunks_def saveRecording_def Let_def
      no_metadata_def split: option.splits)

lemma fold_recoverSession:
  "distinct ss \<Longrightarrow>
   \<exists>new. recordings (fold (recoverSession now) ss d) = recordings d @ new \<and>
     (\<forall>s. map (\<lambda>r. (rstatus r, recovered r, rblob r))
            (filter (\<lambda>r. originalSessionId r = Some s) new) =
          (if s \<in> set ss then ent s d else []))"
proof (induction ss arbitrary: d)
  case Nil
  then show ?case by simp
next
  case (Cons t ss)
  let ?d1 = "recoverSession now t d"
  from Cons.prems have dist: "distinct ss" and notin: "t \<notin> set ss" by simp_all
  obtain e where e: "recordings ?d1 = recordings d @ e"
      "\<forall>r \<in> set e. originalSessionId r = Some t"
      "map (\<lambda>r. (rstatus r, recovered r, rblob r)) e = ent t d"
    using recordings_recoverSession by blast
  obtain new where new: "recordings (fold (recoverSession now) ss ?d1) = recordings ?d1 @ new"
      "\<And>s. map (\<lambda>r. (rstatus r, recovered r, rblob r))
            (filter (\<lambda>r. originalSessionId r = Some s) new) =
          (if s \<in> set ss then ent s ?d1 else [])"
    using Cons.IH[OF dist, of ?d1] by blast
  have fe: "filter (\<lambda>r. originalSessionId r = Some s) e = (if s = t then e else [])" for s
    using e(2) by (auto simp: filter_empty_conv filter_id_conv)
  have "map (\<lambda>r. (rstatus r, recovered r, rblob r))
            (filter (\<lambda>r. originalSessionId r = Some s) (e @ new)) =
          (if s \<in> set (t # ss) then ent s d else [])" for s
  proof (cases "s = t")
    case True
    then show ?thesis using new(2)[of t] notin e(3) by (simp add: fe)
  next
    case False
    then show ?thesis using new(2)[of s] by (simp add: fe ent_recoverSession_other)
  qed
  moreover have "recordings (fold (recoverSession now) (t # ss) d) = recordings d @ (e @ new)"
    using e(1) new(1) by simp
  ultimately show ?case by blast
qed

lemma chunks_fold_recoverSession:
  "chunks (fold (recoverSession now) ss d) = filter (\<lambda>c. sessionId c \<notin> set ss) (chunks d)"
  by (induction ss arbitrary: d) (auto simp: chunks_recoverSession intro: filter_cong)

lemma chunks_checkForRecovery: "chunks (checkForRecovery now d) = []"
  by (simp add: checkForRecovery_def chunks_fold_recoverSession set_getOrphanedSessions)

text \<open>
  Claim C5, as stated, fails: a session present in the chunk store with one chunk
  whose blob is empty is not recovered into the catalog, because \<^verbatim>\<open>checkForRecovery\<close>
  saves only when \<^verbatim>\<open>blob.size > 0\<close>.
\<close>

theorem checkForRecovery_skips_empty_payload:
  "length (getSessionChunks ''S'' (chunk_db [chunk_of 1 ''S'' 0 []])) = 1 \<and>
   added (chunk_db [chunk_of 1 ''S'' 0 []])
     (checkForRecovery date0 (chunk_db [chunk_of 1 ''S'' 0 []])) = []"
  by (simp add: checkForRecovery_def getOrphanedSessions_def recoverSession_def
      recoverFromChunks_def getSessionChunks_def new_Blob_def size_of_def
      clearSessionChunks_def added_def chunk_db_def chunk_of_def audio_def)

text \<open>
  Claim C5, amended: crash recovery handles every session id of the chunk store.
  A session whose chunks concatenate (in ascending sequence order) to a non-empty
  payload gets exactly one new catalog entry, with status \<^verbatim>\<open>pending\<close>, the
  \<^verbatim>\<open>recovered\<close> flag set and that payload as its blob; a session whose payload is
  empty (in particular one with no chunk at all) gets no entry. In both cases the
  session's chunks are cleared, so \<^verbatim>\<open>getSessionChunks\<close> returns the empty list
  afterwards, and the entries already in the catalog are kept.
\<close>

theorem checkForRecovery_recovers:
  "(payload s d \<noteq> [] \<longrightarrow>
      (\<exists>r. filter (\<lambda>r. originalSessionId r = Some s) (added d (checkForRecovery now d)) = [r] \<and>
           rstatus r = Pending \<and> recovered r \<and> content (rblob r) = payload s d)) \<and>
   (payload s d = [] \<longrightarrow>
      filter (\<lambda>r. originalSessionId r = Some s) (added d (checkForRecovery now d)) = []) \<and>
   getSessionChunks s (checkForRecovery now d) = [] \<and>
   take (length (recordings d)) (recordings (checkForRecovery now d)) = recordings d"
proof -
  let ?d' = "checkForRecovery now d"
  obtain new where new: "recordings ?d' = recordings d @ new"
      "\<And>s. map (\<lambda>r. (rstatus r, recovered r, rblob r))
            (filter (\<lambda>r. originalSessionId r = Some s) new) =
          (if s \<in> set (getOrphanedSessions d) then ent s d else [])"
    using fold_recoverSession[OF distinct_getOrphanedSessions, of now d d]
    unfolding checkForRecovery_def by blast
  have add: "added d ?d' = new" by (simp add: added_def new(1))
  have pl: "payload s d = (case recoverFromChunks s d of None \<Rightarrow> [] | Some b \<Rightarrow> content b)"
    by (auto simp: payload_def recoverFromChunks_def new_Blob_def split: list.splits)
  have nonempty: "payload s d \<noteq> [] \<Longrightarrow> s \<in> set (getOrphanedSessions d)"
    by (auto simp: payload_def getSessionChunks_def set_getOrphanedSessions filter_empty_conv)
  have ents: "ent s d = (if payload s d = [] then [] else
      [(Pending, True, the (recoverFromChunks s d))])"
    by (auto simp: ent_def pl size_of_def split: option.splits)
  have 1: "payload s d \<noteq> [] \<Longrightarrow>
      \<exists>r. filter (\<lambda>r. originalSessionId r = Some s) new = [r] \<and>
           rstatus r = Pending \<and> recovered r \<and> content (rblob r) = payload s d"
  proof -
    assume ne: "payload s d \<noteq> []"
    then have "map (\<lambda>r. (rstatus r, recovered r, rblob r))
            (filter (\<lambda>r. originalSessionId r = Some s) new) =
            [(Pending, True, the (recoverFromChunks s d))]"
      using new(2)[of s] nonempty ents by simp
    then obtain r where "filter (\<lambda>r. originalSessionId r = Some s) new = [r]"
        "rstatus r = Pending" "recovered r" "rblob r = the (recoverFromChunks s d)"
      by (auto simp: map_eq_Cons_conv)
    moreover have "content (the (recoverFromChunks s d)) = payload s d"
      using ne by (auto simp: pl split: option.splits)
    ultimately show ?thesis by auto
  qed
  have 2: "payload s d = [] \<Longrightarrow> filter (\<lambda>r. originalSessionId r = Some s) new = []"
    using new(2)[of s] ents by (auto split: if_splits)
  have 3: "getSessionChunks s ?d' = []"
    by (simp add: getSessionChunks_def chunks_checkForRecovery)
  show ?thesis using 1 2 3 by (simp add: add new(1))
qed

theorem checkForRecovery_recovers_witness:
  "payload ''S'' (chunk_db [chunk_of 1 ''S'' 1 [108, 108, 111], chunk_of 2 ''S'' 0 [72, 101]]) =
     [72, 101, 108, 108, 111] \<and>
   (\<exists>r. filter (\<lambda>r. originalSessionId r = Some ''S'')
          (added (chunk_db [chunk_of 1 ''S'' 1 [108, 108, 111], chunk_of 2 ''S'' 0 [72, 101]])
             (checkForRecovery date0
                (chunk_db [chunk_of 1 ''S'' 1 [108, 108, 111], chunk_of 2 ''S'' 0 [72, 101]]))) = [r] \<and>
        rstatus r = Pending \<and> recovered r \<and> content (rblob r) = [72, 101, 108, 108, 111]) \<and>
   payload ''T'' (chunk_db [chunk_of 1 ''S'' 1 [108, 108, 111], chunk_of 2 ''S'' 0 [72, 101]]) = [] \<and>
   filter (\<lambda>r. originalSessionId r = Some ''T'')
          (added (chunk_db [chunk_of 1 ''S'' 1 [108, 108, 111], chunk_of 2 ''S'' 0 [72, 101]])
             (checkForRecovery date0
                (chunk_db [chunk_of 1 ''S'' 1 [108, 108, 111], chunk_of 2 ''S'' 0 [72, 101]]))) = [] \<and>
   getSessionChunks ''S''
     (checkForRecovery date0
        (chunk_db [chunk_of 1 ''S'' 1 [108, 108, 111], chunk_of 2 ''S'' 0 [72, 101]])) = []"
proof -
  let ?d = "chunk_db [chunk_of 1 ''S'' 1 [108, 108, 111], chunk_of 2 ''S'' 0 [72, 101]]"
  have p: "payload ''S'' ?d = [72, 101, 108, 108, 111]"
    by (simp add: payload_def getSessionChunks_def chunk_db_def chunk_of_def audio_def)
  have q: "payload ''T'' ?d = []"
    by (simp add: payload_def getSessionChunks_def chunk_db_def chunk_of_def audio_def)
  show ?thesis
    using checkForRecovery_recovers[of "''S''" ?d date0]
      checkForRecovery_recovers[of "''T''" ?d date0] p q
    by simp
qed

section \<open>The recording session\<close>

text \<open>
  Claim C7 (starting while a session is active is rejected and leaves the session
  untouched) does not hold of \<^verbatim>\<open>start()\<close>: its guard tests for the \<^verbatim>\<open>recording\<close> state
  only. Called on a paused session, \<^verbatim>\<open>start()\<close> returns normally and replaces the
  session id, empties the in-memory chunks, and resets the sequence counter and the
  pause bookkeeping of the session that was active.
\<close>

theorem start_while_paused_overwrites:
  "start ''session_2'' 50000 False paused_session =
     Inr (paused_session\<lparr>sessionId_r := Some ''session_2'', memChunks := [], chunkSequence := 0,
            pausedDuration := 0, pauseStartTime := None, mediaRecorder := Some Recording,
            startTime := Some 50000\<rparr>)"
  by (simp add: start_def paused_session_def)

text \<open>
  In the \<^verbatim>\<open>recording\<close> state the guard applies: \<^verbatim>\<open>start()\<close> returns (with a warning,
  not an error) and the recorder is unchanged.
\<close>

lemma start_while_recording_ignored:
  "mediaStream r \<Longrightarrow> mediaRecorder r = Some Recording \<Longrightarrow> start newId now supported r = Inr r"
  by (simp add: start_def)

text \<open>
  Claim C8, as stated, fails: nothing clamps the result. With \<^verbatim>\<open>startTime = 1000\<close> and
  \<^verbatim>\<open>pausedDuration = 5000\<close>, a reading at \<^verbatim>\<open>now = 2000\<close> gives
  \<^verbatim>\<open>Math.floor(-4000 / 1000) = -4\<close>, in both copies of the function.
\<close>

theorem getElapsedTime_negative:
  "getElapsedTime 2000 2000 (paused_session\<lparr>mediaRecorder := Some Recording\<rparr>) = - 4 \<and>
   getElapsedTime_part_000 2000 2000 (paused_session\<lparr>pauseStartTime := None\<rparr>) = - 4"
  by (simp add: getElapsedTime_def getElapsedTime_part_000_def paused_session_def truthy_def)

text \<open>
  Claim C8, amended: \<^verbatim>\<open>getElapsedTime()\<close> returns 0 while \<^verbatim>\<open>startTime\<close> is unset;
  otherwise it returns, in whole seconds rounded down, the milliseconds
  now - startTime - pausedDuration, further reduced by now - pauseStartTime when the
  recorder is paused and \<^verbatim>\<open>pauseStartTime\<close> is set (in unnamed/part_000: whenever
  \<^verbatim>\<open>pauseStartTime\<close> is set). The result is not clamped: it is negative exactly when
  that number of milliseconds is negative.
\<close>

theorem getElapsedTime_seconds:
  "(\<not> truthy (startTime r) \<longrightarrow>
      getElapsedTime now now' r = 0 \<and> getElapsedTime_part_000 now now' r = 0) \<and>
   (truthy (startTime r) \<longrightarrow>
      getElapsedTime now now' r * 1000 \<le> elapsed_ms now now' r \<and>
      elapsed_ms now now' r < getElapsedTime now now' r * 1000 + 1000 \<and>
      (getElapsedTime now now' r < 0 \<longleftrightarrow> elapsed_ms now now' r < 0) \<and>
      getElapsedTime_part_000 now now' r * 1000 \<le> elapsed_ms_part_000 now now' r \<and>
      elapsed_ms_part_000 now now' r < getElapsedTime_part_000 now now' r * 1000 + 1000 \<and>
      (getElapsedTime_part_000 now now' r < 0 \<longleftrightarrow> elapsed_ms_part_000 now now' r < 0))"
proof -
  have fl: "x div 1000 * 1000 \<le> x \<and> x < x div 1000 * 1000 + 1000 \<and> (x div 1000 < 0 \<longleftrightarrow> x < 0)"
    for x :: int
    using div_mult_mod_eq[of x 1000] pos_mod_bound[of 1000 x] pos_mod_sign[of 1000 x]
      pos_imp_zdiv_neg_iff[of 1000 x]
    by linarith
  have a: "truthy (startTime r) \<Longrightarrow> getElapsedTime now now' r = elapsed_ms now now' r div 1000"
    by (simp add: getElapsedTime_def elapsed_ms_def Let_def)
  have b: "truthy (startTime r) \<Longrightarrow>
      getElapsedTime_part_000 now now' r = elapsed_ms_part_000 now now' r div 1000"
    by (simp add: getElapsedTime_part_000_def elapsed_ms_part_000_def Let_def)
  show ?thesis
  proof (cases "truthy (startTime r)")
    case True
    then show ?thesis
      using fl[of "elapsed_ms now now' r"] fl[of "elapsed_ms_part_000 now now' r"]
      by (simp add: a b)
  next
    case False
    then show ?thesis
      by (simp add: getElapsedTime_def getElapsedTime_part_000_def)
  qed
qed

theorem getElapsedTime_seconds_witness:
  "truthy (startTime paused_session) \<and>
   elapsed_ms 50000 50000 paused_session = 34000 \<and>
   getElapsedTime 50000 50000 paused_session = 34 \<and>
   elapsed_ms_part_000 50000 50000 paused_session = 34000 \<and>
   getElapsedTime_part_000 50000 50000 paused_session = 34 \<and>
   \<not> truthy (startTime initialised) \<and>
   getElapsedTime 50000 50000 initialised = 0 \<and>
   getElapsedTime_part_000 50000 50000 initialised = 0"
proof -
  have t: "truthy (startTime paused_session)" "\<not> truthy (startTime initialised)"
    by (simp_all add: truthy_def paused_session_def initialised_def)
  have e: "elapsed_ms 50000 50000 paused_session = 34000"
      "elapsed_ms_part_000 50000 50000 paused_session = 34000"
    by (simp_all add: elapsed_ms_def elapsed_ms_part_000_def truthy_def paused_session_def)
  have g: "getElapsedTime 50000 50000 paused_session = 34"
      "getElapsedTime_part_000 50000 50000 paused_session = 34"
    by (simp_all add: getElapsedTime_def getElapsedTime_part_000_def truthy_def
        paused_session_def)
  show ?thesis
    using getElapsedTime_seconds[of paused_session 50000 50000]
      getElapsedTime_seconds[of initialised 50000 50000] t e g
    by simp
qed


section \<open>The chunk log\<close>










text \<open>
  The older copy of the flush (unnamed/part_000) advances the counter only after the
  \<^verbatim>\<open>await\<close>: a pause that arrives while the flush of a tick is suspended writes the
  same sequence number again, and the next flush skips one.
\<close>

lemma part_000_duplicate_sequence:
  "map cseq (getSessionChunks ''session_1''
     (snd (fold step_part_000
        [Start ''session_1'' 1000 True, Data (audio [1]), Tick 31000, Pause 31001, Continue,
         Continue, Resume 40000, Tick 61000]
        (initialised, chunk_db [])))) = [0, 0, 2]"
  by (simp add: initialised_def chunk_db_def audio_def start_def handleDataAvailable_def
      size_of_def saveCurrentChunk_part_000_def saveChunk_def pause_part_000_def
      saveCurrentChunk_part_000_resume_def resume_def truthy_def new_Blob_def Let_def
      getSessionChunks_def)

section \<open>The Drive service\<close>

subsection \<open>Re-authentication\<close>












subsection \<open>Folders\<close>

lemma folders_fetch_ok: "fetch_ok w st = (r, st') \<Longrightarrow> folders st' = folders st"
  by (auto simp: fetch_ok_def Let_def split: http.splits if_splits)

lemma findFolder_None:
  "findFolder w n p st = (Inr None, st') \<Longrightarrow>
   folders st' = folders st \<and> (n, p) \<notin> set (map (\<lambda>f. (folderName f, folderParent f)) (folders st))"
proof -
  assume a: "findFolder w n p st = (Inr None, st')"
  then obtain st1 where f: "fetch_ok w st = (None, st1)" and st': "st' = st1"
      and n: "find (\<lambda>f. folderName f = n \<and> folderParent f = p) (folders st1) = None"
    by (auto simp: findFolder_def split: prod.splits option.splits)
  have "folders st1 = folders st" using f by (rule folders_fetch_ok)
  then show ?thesis using n st' by (auto simp: find_None_iff)
qed

lemma findFolder_folders: "findFolder w n p st = (r, st') \<Longrightarrow> folders st' = folders st"
  by (auto simp: findFolder_def split: prod.splits option.splits dest: folders_fetch_ok)

lemma createFolder_folders:
  "createFolder w n p st = (r, st') \<Longrightarrow>
   folders st' = folders st \<or>
   (\<exists>i. folders st' = folders st @ [\<lparr>folderId = i, folderName = n, folderParent = p\<rparr>])"
  by (auto simp: createFolder_def split: prod.splits option.splits dest: folders_fetch_ok)

lemma no_duplicate_folders_ensureFolders:
  "ensureFolders w ps p c st = (r, st') \<Longrightarrow> no_duplicate_folders st \<Longrightarrow>
   no_duplicate_folders st'"
proof (induction ps arbitrary: p c st)
  case Nil
  then show ?case by simp
next
  case (Cons n ps)
  let ?c = "c @ (if c \<noteq> [] then ''/'' else []) @ n"
  show ?case
  proof (cases "folderCache st ?c")
    case (Some cached)
    then show ?thesis using Cons.prems Cons.IH[of cached ?c st] by (simp add: Let_def)
  next
    case None
    obtain r1 st1 where f: "findFolder w n p st = (r1, st1)" by (cases "findFolder w n p st")
    have nd1: "no_duplicate_folders st1"
      using findFolder_folders[OF f] Cons.prems(2) by (simp add: no_duplicate_folders_def)
    show ?thesis
    proof (cases r1)
      case (Inl e)
      then show ?thesis using Cons.prems None f nd1 by (simp add: Let_def)
    next
      case (Inr found)
      show ?thesis
      proof (cases found)
        case (Some i)
        have "no_duplicate_folders (st1\<lparr>folderCache := (folderCache st1)(?c \<mapsto> i)\<rparr>)"
          using nd1 by (simp add: no_duplicate_folders_def)
        then show ?thesis
          using Cons.prems None f Inr Some
            Cons.IH[of i ?c "st1\<lparr>folderCache := (folderCache st1)(?c \<mapsto> i)\<rparr>"]
          by (simp add: Let_def)
      next
        case None2: None
        obtain r2 st2 where c: "createFolder w n p st1 = (r2, st2)"
          by (cases "createFolder w n p st1")
        have "(n, p) \<notin> set (map (\<lambda>f. (folderName f, folderParent f)) (folders st1))"
          using findFolder_None[of w n p st st1] f Inr None2 by simp
        then have nd2: "no_duplicate_folders st2"
          using createFolder_folders[OF c] nd1 by (auto simp: no_duplicate_folders_def)
        show ?thesis
        proof (cases r2)
          case (Inl e)
          then show ?thesis using Cons.prems None f Inr None2 c nd2 by (simp add: Let_def)
        next
          case (Inr i)
          have "no_duplicate_folders (st2\<lparr>folderCache := (folderCache st2)(?c \<mapsto> i)\<rparr>)"
            using nd2 by (simp add: no_duplicate_folders_def)
          then show ?thesis
            using Cons.prems None f \<open>r1 = Inr found\<close> None2 c Inr
              Cons.IH[of i ?c "st2\<lparr>folderCache := (folderCache st2)(?c \<mapsto> i)\<rparr>"]
            by (simp add: Let_def)
        qed
      qed
    qed
  qed
qed

lemma length_folders_ensureFolders:
  "ensureFolders w ps p c st = (r, st') \<Longrightarrow> length (folders st') \<le> length (folders st) + length ps"
proof (induction ps arbitrary: p c st)
  case Nil
  then show ?case by simp
next
  case (Cons n ps)
  from Cons.prems show ?case
    by (auto simp: Let_def split: option.splits prod.splits sum.splits
        dest!: Cons.IH findFolder_folders createFolder_folders)
qed

text \<open>
  Claim C9: if \<^verbatim>\<open>ensureFolderPath\<close> has returned a folder id for a path, a second call
  with the same path returns the same id from the cache, whatever the outside world
  would answer: it makes no request, creates no folder and leaves the state as it
  is. The first call creates at most one folder per path segment, and only after
  looking the name up under the same parent, so it never adds a second folder of the
  same name to a parent.
\<close>

theorem ensureFolderPath_idempotent:
  assumes "ensureFolderPath w path st = (Inr i, st1)"
  shows "ensureFolderPath w' path st1 = (Inr i, st1) \<and>
         length (folders st1) \<le> length (folders st) + length (path_parts path) \<and>
         (no_duplicate_folders st \<longrightarrow> no_duplicate_folders st1)"
proof -
  have 1: "folderCache st1 path = Some i"
    using assms by (auto simp: ensureFolderPath_def split: option.splits prod.splits sum.splits)
  have 2: "length (folders st1) \<le> length (folders st) + length (path_parts path)"
    using assms
    by (auto simp: ensureFolderPath_def split: option.splits prod.splits sum.splits
        dest!: length_folders_ensureFolders)
  have 3: "no_duplicate_folders st \<Longrightarrow> no_duplicate_folders st1"
    using assms
    by (auto simp: ensureFolderPath_def no_duplicate_folders_def
        split: option.splits prod.splits sum.splits
        dest!: no_duplicate_folders_ensureFolders[unfolded no_duplicate_folders_def])
  show ?thesis using 1 2 3 by (simp add: ensureFolderPath_def)
qed

theorem ensureFolderPath_idempotent_witness:
  "fst (ensureFolderPath (answering []) ''A/B/C'' signed_in) = Inr (Id 3) \<and>
   ensureFolderPath offline_world ''A/B/C''
       (snd (ensureFolderPath (answering []) ''A/B/C'' signed_in)) =
     (Inr (Id 3), snd (ensureFolderPath (answering []) ''A/B/C'' signed_in)) \<and>
   folders (snd (ensureFolderPath (answering []) ''A/B/C'' signed_in)) =
     [\<lparr>folderId = Id 1, folderName = ''A'', folderParent = Root\<rparr>,
      \<lparr>folderId = Id 2, folderName = ''B'', folderParent = Id 1\<rparr>,
      \<lparr>folderId = Id 3, folderName = ''C'', folderParent = Id 2\<rparr>] \<and>
   no_duplicate_folders signed_in \<and>
   no_duplicate_folders (snd (ensureFolderPath (answering []) ''A/B/C'' signed_in))"
proof -
  let ?r = "ensureFolderPath (answering []) ''A/B/C'' signed_in"
  have a: "fst ?r = Inr (Id 3)"
    by (simp add: ensureFolderPath_def path_parts_def whitespace_def findFolder_def
        createFolder_def fetch_ok_def answering_def signed_in_def Let_def)
  have b: "folders (snd ?r) =
     [\<lparr>folderId = Id 1, folderName = ''A'', folderParent = Root\<rparr>,
      \<lparr>folderId = Id 2, folderName = ''B'', folderParent = Id 1\<rparr>,
      \<lparr>folderId = Id 3, folderName = ''C'', folderParent = Id 2\<rparr>]"
    by (simp add: ensureFolderPath_def path_parts_def whitespace_def findFolder_def
        createFolder_def fetch_ok_def answering_def signed_in_def Let_def)
  have c: "no_duplicate_folders signed_in"
    by (simp add: no_duplicate_folders_def signed_in_def)
  have e: "?r = (Inr (Id 3), snd ?r)"
    using a by (cases ?r) simp
  show ?thesis
    using ensureFolderPath_idempotent[OF e, of offline_world] a b c by simp
qed

section \<open>The sync pass\<close>

lemma rids_put: "map rid (recordings (put r d)) = map rid (recordings d)"
  by (simp add: put_def comp_def)

lemma put_other: "x \<in> set (recordings d) \<Longrightarrow> rid x \<noteq> rid r \<Longrightarrow> x \<in> set (recordings (put r d))"
  by (force simp: put_def)

lemma updateRecordingStatus_rid:
  assumes "updateRecordingStatus now i st xs d = Inr (r, d')"
  shows "rid r = i \<and> d' = put r d"
proof -
  have f: "rid (foldl assign r0 xs) = rid r0" for r0
  proof (induction xs arbitrary: r0)
    case Nil
    then show ?case by simp
  next
    case (Cons x xs)
    then show ?case by (cases x) simp_all
  qed
  from assms show ?thesis
    by (auto simp: updateRecordingStatus_def Let_def f split: option.splits
        dest: getRecording_rid)
qed

lemma updateRecordingStatus_other:
  assumes "updateRecordingStatus now i st xs d = Inr (r, d')"
  shows "map rid (recordings d') = map rid (recordings d)"
    and "x \<in> set (recordings d) \<Longrightarrow> rid x \<noteq> i \<Longrightarrow> x \<in> set (recordings d')"
  using updateRecordingStatus_rid[OF assms] by (auto simp: rids_put put_other)

lemma incrementRetryCount_other:
  assumes "incrementRetryCount now i d = Inr d'"
  shows "map rid (recordings d') = map rid (recordings d)"
    and "x \<in> set (recordings d) \<Longrightarrow> rid x \<noteq> i \<Longrightarrow> x \<in> set (recordings d')"
  using assms
  by (auto simp: incrementRetryCount_def split: option.splits sum.splits
      dest: updateRecordingStatus_other)

lemma record_failure_other:
  assumes "record_failure now i d = (e, d')"
  shows "map rid (recordings d') = map rid (recordings d)"
    and "x \<in> set (recordings d) \<Longrightarrow> rid x \<noteq> i \<Longrightarrow> x \<in> set (recordings d')"
proof -
  show "map rid (recordings d') = map rid (recordings d)"
    using assms
    by (auto simp: record_failure_def split: option.splits sum.splits prod.splits
        dest!: updateRecordingStatus_other(1) incrementRetryCount_other(1))
  show "x \<in> set (recordings d) \<Longrightarrow> rid x \<noteq> i \<Longrightarrow> x \<in> set (recordings d')"
    using assms
    by (auto simp: record_failure_def split: option.splits sum.splits prod.splits
        dest: updateRecordingStatus_other(2) incrementRetryCount_other(2))
qed

text \<open>A recording at or over the retry limit is skipped by the loop body.\<close>

lemma syncItem_dead_letter:
  "MAX_RETRY_COUNT \<le> retryCount x \<Longrightarrow> syncItem up now x a = Some (None, a)"
  by (simp add: syncItem_def)

text \<open>The loop body touches the catalog entry of its own recording only.\<close>

lemma syncItem_other:
  assumes "syncItem up now x a = Some (e, a')"
  shows "map rid (recordings (store a')) = map rid (recordings (store a))"
    and "r \<in> set (recordings (store a)) \<Longrightarrow> rid r \<noteq> rid x \<Longrightarrow> r \<in> set (recordings (store a'))"
    and "\<exists>l. handedOver a' = handedOver a @ l \<and> set l \<subseteq> {x}"
    and "isSyncing a' = isSyncing a"
proof -
  show "map rid (recordings (store a')) = map rid (recordings (store a))"
    using assms
    by (auto simp: syncItem_def Let_def
        split: if_splits option.splits sum.splits prod.splits
        dest!: updateRecordingStatus_other(1) record_failure_other(1))
  show "r \<in> set (recordings (store a)) \<Longrightarrow> rid r \<noteq> rid x \<Longrightarrow> r \<in> set (recordings (store a'))"
    using assms
    by (auto simp: syncItem_def Let_def
        split: if_splits option.splits sum.splits prod.splits
        dest: updateRecordingStatus_other(2) record_failure_other(2))
  show "\<exists>l. handedOver a' = handedOver a @ l \<and> set l \<subseteq> {x}"
    using assms
    by (auto simp: syncItem_def Let_def
        split: if_splits option.splits sum.splits prod.splits)
  show "isSyncing a' = isSyncing a"
    using assms
    by (auto simp: syncItem_def Let_def
        split: if_splits option.splits sum.splits prod.splits)
qed

lemma syncLoop_dead_letter:
  assumes "syncLoop up now rs a = Some (e, a')"
    and "r \<in> set (recordings (store a))"
    and "MAX_RETRY_COUNT \<le> retryCount r"
    and "\<forall>x \<in> set rs. rid x = rid r \<longrightarrow> x = r"
  shows "r \<in> set (recordings (store a')) \<and>
         (\<exists>l. handedOver a' = handedOver a @ l \<and> rid r \<notin> rid ` set l)"
  using assms
proof (induction rs arbitrary: a)
  case Nil
  then show ?case by simp
next
  case (Cons x rs)
  show ?case
  proof (cases "rid x = rid r")
    case True
    then have "x = r" using Cons.prems(4) by simp
    then have "syncItem up now x a = Some (None, a)"
      using Cons.prems(3) by (simp add: syncItem_dead_letter)
    then show ?thesis using Cons.prems Cons.IH[of a] by simp
  next
    case False
    from Cons.prems(1) obtain e1 a1 where
      s: "syncItem up now x a = Some (e1, a1)"
      by (auto split: option.splits)
    have r1: "r \<in> set (recordings (store a1))"
      using syncItem_other(2)[OF s Cons.prems(2)] False by simp
    obtain l where l: "handedOver a1 = handedOver a @ l" "set l \<subseteq> {x}"
      using syncItem_other(3)[OF s] by blast
    have nl: "rid r \<notin> rid ` set l" using l(2) False by auto
    show ?thesis
    proof (cases e1)
      case None
      then have "syncLoop up now rs a1 = Some (e, a')" using Cons.prems(1) s by simp
      from Cons.IH[OF this r1 Cons.prems(3)] Cons.prems(4)
      obtain l' where "r \<in> set (recordings (store a'))"
          "handedOver a' = handedOver a1 @ l'" "rid r \<notin> rid ` set l'"
        by auto
      then show ?thesis using l(1) nl by auto
    next
      case (Some err)
      then have "a' = a1" using Cons.prems(1) s by simp
      then show ?thesis using r1 l(1) nl by auto
    qed
  qed
qed

lemma getRecording_present:
  "i \<in> rid ` set (recordings d) \<Longrightarrow> \<exists>y. getRecording i d = Some y"
proof -
  assume "i \<in> rid ` set (recordings d)"
  then have "find (\<lambda>r. rid r = i) (recordings d) \<noteq> None"
    by (auto simp: find_None_iff)
  then show ?thesis by (auto simp: getRecording_def)
qed

lemma present_iff_rids:
  "map rid (recordings d') = map rid (recordings d) \<Longrightarrow>
   rid ` set (recordings d') = rid ` set (recordings d)"
  by (metis set_map)

lemma updateRecordingStatus_present:
  assumes "i \<in> rid ` set (recordings d)"
  shows "\<exists>r d'. updateRecordingStatus now i st xs d = Inr (r, d') \<and>
          rid ` set (recordings d') = rid ` set (recordings d)"
proof -
  obtain y where "getRecording i d = Some y" using getRecording_present[OF assms] by blast
  then obtain r d' where u: "updateRecordingStatus now i st xs d = Inr (r, d')"
    by (simp add: updateRecordingStatus_def Let_def)
  then show ?thesis using present_iff_rids[OF updateRecordingStatus_other(1)[OF u]] by blast
qed

lemma incrementRetryCount_present:
  assumes "i \<in> rid ` set (recordings d)"
  shows "\<exists>d'. incrementRetryCount now i d = Inr d' \<and>
          rid ` set (recordings d') = rid ` set (recordings d)"
proof -
  obtain y where y: "getRecording i d = Some y" using getRecording_present[OF assms] by blast
  obtain r d' where u: "updateRecordingStatus now i (rstatus y)
      [RetryCount (retryCount y + 1), LastRetry now] d = Inr (r, d')"
      "rid ` set (recordings d') = rid ` set (recordings d)"
    using updateRecordingStatus_present[OF assms] by blast
  then show ?thesis using y by (simp add: incrementRetryCount_def)
qed

lemma record_failure_present:
  assumes "i \<in> rid ` set (recordings d)"
  shows "\<exists>d'. record_failure now i d = (None, d') \<and>
          rid ` set (recordings d') = rid ` set (recordings d)"
proof -
  obtain r d1 where u: "updateRecordingStatus now i Failed [] d = Inr (r, d1)"
      "rid ` set (recordings d1) = rid ` set (recordings d)"
    using updateRecordingStatus_present[OF assms] by blast
  then have "i \<in> rid ` set (recordings d1)" using assms by simp
  from incrementRetryCount_present[OF this, where now = now] u show ?thesis
    by (auto simp: record_failure_def)
qed

text \<open>
  With the recording in the catalog and an uploader that returns, the loop body
  returns without an error, whatever the uploader answered.
\<close>

lemma syncItem_present:
  assumes "rid x \<in> rid ` set (recordings (store a))"
    and "returns up"
  shows "\<exists>a'. syncItem up now x a = Some (None, a') \<and>
          handedOver a' = handedOver a @ (if retryCount x < MAX_RETRY_COUNT then [x] else []) \<and>
          rid ` set (recordings (store a')) = rid ` set (recordings (store a))"
proof (cases "MAX_RETRY_COUNT \<le> retryCount x")
  case True
  then show ?thesis by (simp add: syncItem_def)
next
  case False
  obtain r1 d1 where u1: "updateRecordingStatus now (rid x) Uploading [] (store a) = Inr (r1, d1)"
      and p1: "rid ` set (recordings d1) = rid ` set (recordings (store a))"
    using updateRecordingStatus_present[OF assms(1)] by blast
  obtain res w1 where up: "up (rblob x) (fileName x) (drivePath x) (remote a) = Some (res, w1)"
  proof -
    have "up (rblob x) (fileName x) (drivePath x) (remote a) \<noteq> None"
      using assms(2) unfolding returns_def by blast
    then show ?thesis using that by (cases "up (rblob x) (fileName x) (drivePath x) (remote a)") auto
  qed
  have in1: "rid x \<in> rid ` set (recordings d1)" using assms(1) p1 by simp
  obtain df where f: "record_failure now (rid x) d1 = (None, df)"
      and pf: "rid ` set (recordings df) = rid ` set (recordings d1)"
    using record_failure_present[OF in1] by blast
  show ?thesis
  proof (cases res)
    case (Inl e)
    then show ?thesis using False u1 up f pf p1
      by (simp add: syncItem_def Let_def)
  next
    case (Inr result)
    obtain r2 d2 where u2: "updateRecordingStatus now (rid x) Synced
        [DriveFileId (fileId result)] d1 = Inr (r2, d2)"
        and p2: "rid ` set (recordings d2) = rid ` set (recordings d1)"
      using updateRecordingStatus_present[OF in1] by blast
    then show ?thesis using False u1 up Inr p1
      by (simp add: syncItem_def Let_def)
  qed
qed

lemma syncLoop_continues:
  assumes "returns up"
    and "\<forall>x \<in> set rs. rid x \<in> rid ` set (recordings (store a))"
  shows "\<exists>a'. syncLoop up now rs a = Some (None, a') \<and>
          handedOver a' = handedOver a @ filter (\<lambda>x. retryCount x < MAX_RETRY_COUNT) rs"
  using assms(2)
proof (induction rs arbitrary: a)
  case Nil
  then show ?case by simp
next
  case (Cons x rs)
  then have "rid x \<in> rid ` set (recordings (store a))" by simp
  from syncItem_present[OF this assms(1), where now = now]
  obtain a1 where a1: "syncItem up now x a = Some (None, a1)"
      "handedOver a1 = handedOver a @ (if retryCount x < MAX_RETRY_COUNT then [x] else [])"
      "rid ` set (recordings (store a1)) = rid ` set (recordings (store a))"
    by blast
  have "\<forall>y \<in> set rs. rid y \<in> rid ` set (recordings (store a1))"
    using Cons.prems a1(3) by simp
  from Cons.IH[OF this] obtain a' where
    "syncLoop up now rs a1 = Some (None, a')"
    "handedOver a' = handedOver a1 @ filter (\<lambda>x. retryCount x < MAX_RETRY_COUNT) rs"
    by blast
  then show ?case using a1(1,2) by simp
qed

text \<open>
  The sync pass of the copy in js/drive.js is not aborted by failed uploads: with an
  uploader that always returns, whatever the pattern of its failures, the pass
  completes without an error and has handed every unsynced recording under the retry
  limit to the uploader, in order.
\<close>

lemma syncRecordings_continues:
  assumes "returns up"
    and "\<not> isSyncing a" "onLine a" "auth (remote a)"
  shows "\<exists>a'. syncRecordings up auth now a = Some (None, a') \<and>
          handedOver a' = handedOver a @
            filter (\<lambda>x. retryCount x < MAX_RETRY_COUNT) (getUnsyncedRecordings (store a))"
proof -
  let ?a1 = "a\<lparr>isSyncing := True\<rparr>"
  have "\<forall>x \<in> set (getUnsyncedRecordings (store ?a1)). rid x \<in> rid ` set (recordings (store ?a1))"
    by (auto simp: getUnsyncedRecordings_def)
  from syncLoop_continues[OF assms(1) this, where now = now]
  obtain a' where "syncLoop up now (getUnsyncedRecordings (store ?a1)) ?a1 = Some (None, a')"
      "handedOver a' = handedOver ?a1 @
         filter (\<lambda>x. retryCount x < MAX_RETRY_COUNT) (getUnsyncedRecordings (store ?a1))"
    by blast
  then show ?thesis using assms(2-4)
    by (auto simp: syncRecordings_def syncRecordings_enter_def syncRecordings_leave_def Let_def)
qed





lemma syncLoop_rids:
  "syncLoop up now rs a = Some (e, a') \<Longrightarrow>
   map rid (recordings (store a')) = map rid (recordings (store a))"
proof (induction rs arbitrary: a)
  case Nil
  then show ?case by simp
next
  case (Cons x rs)
  from Cons.prems obtain e1 a1 where s: "syncItem up now x a = Some (e1, a1)"
    by (auto split: option.splits)
  show ?case
  proof (cases e1)
    case None
    then show ?thesis using Cons.prems s Cons.IH[of a1] syncItem_other(1)[OF s] by simp
  next
    case (Some err)
    then show ?thesis using Cons.prems s syncItem_other(1)[OF s] by simp
  qed
qed

lemma syncRecordings_dead_letter:
  assumes "syncRecordings up auth now a = Some (e, a')"
    and "r \<in> set (recordings (store a))"
    and "MAX_RETRY_COUNT \<le> retryCount r"
    and "distinct (map rid (recordings (store a)))"
  shows "r \<in> set (recordings (store a')) \<and>
         distinct (map rid (recordings (store a'))) \<and>
         (\<exists>l. handedOver a' = handedOver a @ l \<and> rid r \<notin> rid ` set l)"
proof (cases "isSyncing a \<or> \<not> onLine a \<or> \<not> auth (remote a)")
  case True
  then have "a' = a" using assms(1)
    by (auto simp: syncRecordings_def syncRecordings_enter_def)
  then show ?thesis using assms by simp
next
  case False
  let ?a1 = "a\<lparr>isSyncing := True\<rparr>"
  let ?rs = "getUnsyncedRecordings (store ?a1)"
  have own: "\<forall>x \<in> set ?rs. rid x = rid r \<longrightarrow> x = r"
    using assms(2,4) by (auto simp: getUnsyncedRecordings_def distinct_map inj_on_def)
  show ?thesis
  proof (cases "?rs = []")
    case True
    then have "a' = syncRecordings_leave ?a1" using assms(1) False
      by (auto simp: syncRecordings_def syncRecordings_enter_def)
    then show ?thesis using assms by (simp add: syncRecordings_leave_def)
  next
    case ne: False
    from assms(1) False ne obtain a2 where
      l: "syncLoop up now ?rs ?a1 = Some (e, a2)" and a': "a' = syncRecordings_leave a2"
      by (auto simp: syncRecordings_def syncRecordings_enter_def Let_def split: option.splits)
    have "r \<in> set (recordings (store ?a1))" using assms(2) by simp
    from syncLoop_dead_letter[OF l this assms(3) own] syncLoop_rids[OF l] assms(4) a'
    show ?thesis by (simp add: syncRecordings_leave_def)
  qed
qed

text \<open>
  Claim C3: a recording of the catalog whose \<^verbatim>\<open>retryCount\<close> has reached
  \<^verbatim>\<open>MAX_RETRY_COUNT\<close> is not handed to the uploader by any later sync pass (the copy
  in js/drive.js; ids in the catalog are distinct, as its key generator makes them),
  however many passes run and whatever the uploader answers for the other
  recordings, and it stays in the catalog as it is. \<^verbatim>\<open>getUnsyncedRecordings\<close> still
  returns it; the loop of the pass skips it. Nothing in the program resets a
  \<^verbatim>\<open>retryCount\<close>.
\<close>

theorem dead_letter_never_uploaded:
  assumes "syncPasses up auth nows a = Some a'"
    and "r \<in> set (recordings (store a))"
    and "MAX_RETRY_COUNT \<le> retryCount r"
    and "distinct (map rid (recordings (store a)))"
  shows "rid r \<notin> rid ` set (drop (length (handedOver a)) (handedOver a')) \<and>
         r \<in> set (recordings (store a'))"
proof -
  have "r \<in> set (recordings (store a')) \<and>
        (\<exists>l. handedOver a' = handedOver a @ l \<and> rid r \<notin> rid ` set l)"
    using assms(1,2,4)
  proof (induction nows arbitrary: a)
    case Nil
    then show ?case by simp
  next
    case (Cons now nows)
    from Cons.prems(1) obtain e a1 where
      p: "syncRecordings up auth now a = Some (e, a1)" and q: "syncPasses up auth nows a1 = Some a'"
      by (auto split: option.splits)
    from syncRecordings_dead_letter[OF p Cons.prems(2) assms(3) Cons.prems(3)]
    obtain l where 1: "r \<in> set (recordings (store a1))"
        "distinct (map rid (recordings (store a1)))"
        "handedOver a1 = handedOver a @ l" "rid r \<notin> rid ` set l"
      by blast
    from Cons.IH[OF q 1(1,2)] obtain l' where
      "r \<in> set (recordings (store a'))" "handedOver a' = handedOver a1 @ l'"
      "rid r \<notin> rid ` set l'"
      by blast
    then show ?case using 1(3,4) by auto
  qed
  then show ?thesis by auto
qed

theorem dead_letter_never_uploaded_witness:
  "syncPasses always_ok (\<lambda>_. True) [100, 200] (idle_app [dead_letter, waiting 2 ''second.webm'']) =
     Some ((idle_app [dead_letter,
              (waiting 2 ''second.webm'')\<lparr>rstatus := Synced, synced := 1, syncedAt := Some 100,
                 driveFileId := Some (Id 7)\<rparr>])
           \<lparr>handedOver := [waiting 2 ''second.webm'']\<rparr>) \<and>
   dead_letter \<in> set (recordings (store (idle_app [dead_letter, waiting 2 ''second.webm'']))) \<and>
   MAX_RETRY_COUNT \<le> retryCount dead_letter \<and>
   distinct (map rid (recordings (store (idle_app [dead_letter, waiting 2 ''second.webm''])))) \<and>
   rid dead_letter \<notin> rid ` set [waiting 2 ''second.webm'']"
proof -
  let ?a = "idle_app [dead_letter, waiting 2 ''second.webm'']"
  let ?a' = "(idle_app [dead_letter,
              (waiting 2 ''second.webm'')\<lparr>rstatus := Synced, synced := 1, syncedAt := Some 100,
                 driveFileId := Some (Id 7)\<rparr>])
           \<lparr>handedOver := [waiting 2 ''second.webm'']\<rparr>"
  have 1: "syncPasses always_ok (\<lambda>_. True) [100, 200] ?a = Some ?a'"
    by (simp add: syncRecordings_def syncRecordings_enter_def syncRecordings_leave_def
        getUnsyncedRecordings_def syncItem_def record_failure_def updateRecordingStatus_def
        getRecording_def put_def MAX_RETRY_COUNT_def always_ok_def uploaded_as_def idle_app_def
        db_of_def dead_letter_def waiting_def rec1_def rec0_def Let_def)
  have 2: "dead_letter \<in> set (recordings (store ?a))"
    by (simp add: idle_app_def db_of_def)
  have 3: "MAX_RETRY_COUNT \<le> retryCount dead_letter"
    by (simp add: MAX_RETRY_COUNT_def dead_letter_def)
  have 4: "distinct (map rid (recordings (store ?a)))"
    by (simp add: idle_app_def db_of_def dead_letter_def waiting_def)
  have 5: "drop (length (handedOver ?a)) (handedOver ?a') = [waiting 2 ''second.webm'']"
    by (simp add: idle_app_def)
  show ?thesis
    using dead_letter_never_uploaded[OF 1 2 3 4] 1 2 3 4 unfolding 5 by simp
qed

subsection \<open>Failures during a pass\<close>


text \<open>
  The copy of the pass in js/drive.js does what the claim says, on the same input
  (see also \<open>syncRecordings_continues\<close> and \<open>syncItem_records_failure\<close>).
\<close>

lemma syncRecordings_goes_on_after_failure:
  "syncRecordings (failing_on ''first.webm'') (\<lambda>_. True) 100
     (idle_app [waiting 1 ''first.webm'', waiting 2 ''second.webm'']) =
   Some (None,
     (idle_app [(waiting 1 ''first.webm'')\<lparr>rstatus := Failed, retryCount := 1, lastRetry := Some 100\<rparr>,
                (waiting 2 ''second.webm'')\<lparr>rstatus := Synced, synced := 1, syncedAt := Some 100,
                   driveFileId := Some (Id 7)\<rparr>])
       \<lparr>handedOver := [waiting 1 ''first.webm'', waiting 2 ''second.webm'']\<rparr>)"
  by (simp add: syncRecordings_def syncRecordings_enter_def syncRecordings_leave_def
      getUnsyncedRecordings_def syncItem_def record_failure_def updateRecordingStatus_def
      incrementRetryCount_def getRecording_def put_def MAX_RETRY_COUNT_def failing_on_def
      uploaded_as_def idle_app_def db_of_def waiting_def rec1_def rec0_def Let_def)

subsection \<open>Single flight\<close>

lemma filter_update_length:
  assumes "i < length xs"
  shows "length (filter P (xs[i := y])) + (if P (xs ! i) then 1 else 0) =
         length (filter P xs) + (if P y then 1 else 0)"
proof -
  have "xs = take i xs @ xs ! i # drop (Suc i) xs"
    using assms by (simp add: id_take_nth_drop)
  moreover have "xs[i := y] = take i xs @ y # drop (Suc i) xs"
    using assms by (simp add: upd_conv_take_nth_drop)
  ultimately have "length (filter P (xs[i := y])) + (if P (xs ! i) then 1 else 0) =
      length (filter P (take i xs @ y # drop (Suc i) xs)) + (if P (xs ! i) then 1 else 0)"
    and "length (filter P xs) =
      length (filter P (take i xs @ xs ! i # drop (Suc i) xs))"
    by simp_all
  then show ?thesis by simp
qed

lemma stretch_flag: "flag (stretch flag f s) = flag s"
  by (simp add: stretch_def)

lemma single_flight_step:
  assumes E1: "\<And>s s'. enter s = (True, s') \<Longrightarrow> \<not> flag s \<and> flag s'"
    and E2: "\<And>s s'. enter s = (False, s') \<Longrightarrow> s' = s"
    and L: "\<And>s. \<not> flag (leave s)"
    and inv: "single_flight flag st"
  shows "single_flight flag (sched_step flag enter leave ev st)"
proof (cases st)
  case (Pair s invs)
  have len: "length (filter inside invs) \<le> 1" and fl: "flag s = (filter inside invs \<noteq> [])"
    using inv Pair by (simp_all add: single_flight_def)
  show ?thesis
  proof (cases ev)
    case (Env f)
    then show ?thesis using Pair len fl by (simp add: single_flight_def stretch_flag)
  next
    case (Run i f)
    show ?thesis
    proof (cases "length invs \<le> i")
      case True
      then show ?thesis using Pair Run inv by simp
    next
      case False
      then have i: "i < length invs" by simp
      note upd = filter_update_length[OF i, of inside]
      show ?thesis
      proof (cases "invs ! i")
        case (Triggered n)
        obtain b s' where e: "enter s = (b, s')" by (cases "enter s")
        show ?thesis
        proof (cases b)
          case True
          then have "\<not> flag s" "flag s'" using E1 e by auto
          then have "filter inside invs = []" using fl by simp
          then have "length (filter inside (invs[i := Inside n])) = 1"
            using upd[of "Inside n"] Triggered by simp
          then show ?thesis using Pair Run False Triggered e True \<open>flag s'\<close>
            by (auto simp: single_flight_def)
        next
          case b: False
          then have "s' = s" using E2 e by auto
          moreover have "length (filter inside (invs[i := Returned False])) =
              length (filter inside invs)"
            using upd[of "Returned False"] Triggered by simp
          ultimately show ?thesis using Pair Run False Triggered e b len fl
            by (auto simp: single_flight_def)
        qed
      next
        case (Inside k)
        then have one: "length (filter inside invs) = 1"
          using upd[of "Returned True"] len by simp
        show ?thesis
        proof (cases k)
          case 0
          have "length (filter inside (invs[i := Returned True])) = 0"
            using upd[of "Returned True"] Inside one by simp
          then show ?thesis using Pair Run False Inside 0 L
            by (auto simp: single_flight_def)
        next
          case (Suc n)
          have "length (filter inside (invs[i := Inside n])) = 1"
            using upd[of "Inside n"] Inside one by simp
          moreover have "flag s" using fl one by auto
          ultimately show ?thesis using Pair Run False Inside Suc
            by (auto simp: single_flight_def stretch_flag)
        qed
      next
        case (Returned b)
        then show ?thesis using Pair Run False inv by simp
      qed
    qed
  qed
qed

lemma single_flight_run:
  assumes E1: "\<And>s s'. enter s = (True, s') \<Longrightarrow> \<not> flag s \<and> flag s'"
    and E2: "\<And>s s'. enter s = (False, s') \<Longrightarrow> s' = s"
    and L: "\<And>s. \<not> flag (leave s)"
    and inv: "single_flight flag st"
  shows "single_flight flag (sched_run flag enter leave evs st)"
  using inv unfolding sched_run_def
proof (induction evs arbitrary: st)
  case Nil
  then show ?case by simp
next
  case (Cons ev evs)
  have "single_flight flag (sched_step flag enter leave ev st)"
    using single_flight_step[of enter flag leave st ev] E1 E2 L Cons.prems by blast
  from Cons.IH[OF this] show ?case by simp
qed

lemma single_flight_initial:
  "\<not> flag s \<Longrightarrow> single_flight flag (s, map Triggered ns)"
  by (simp add: single_flight_def filter_empty_conv)

lemma second_trigger_returns:
  assumes E0: "\<And>s. flag s \<Longrightarrow> enter s = (False, s)"
    and "single_flight flag (s, invs)"
    and "i < length invs" "inside (invs ! i)"
    and "j < length invs" "invs ! j = Triggered n"
  shows "sched_step flag enter leave (Run j f) (s, invs) = (s, invs[j := Returned False])"
proof -
  have "invs ! i \<in> set invs" using assms(3) by simp
  then have "filter inside invs \<noteq> []" using assms(4) by (auto simp: filter_empty_conv)
  then have "flag s" using assms(2) by (simp add: single_flight_def)
  then show ?thesis using E0 assms(5,6) by simp
qed

lemma enter_props:
  "syncRecordings_enter auth s = (True, s') \<Longrightarrow> \<not> isSyncing s \<and> isSyncing s'"
  "syncRecordings_enter auth s = (False, s') \<Longrightarrow> s' = s"
  "\<not> isSyncing (syncRecordings_leave s)"
  "isSyncing s \<Longrightarrow> syncRecordings_enter auth s = (False, s)"
  by (auto simp: syncRecordings_enter_def syncRecordings_leave_def split: if_splits)

lemma enter_js_props:
  "syncRecordings_js_enter auth s = (True, s') \<Longrightarrow> \<not> isSyncing_js s \<and> isSyncing_js s'"
  "syncRecordings_js_enter auth s = (False, s') \<Longrightarrow> s' = s"
  "\<not> isSyncing_js (syncRecordings_js_leave s)"
  "isSyncing_js s \<Longrightarrow> syncRecordings_js_enter auth s = (False, s)"
  by (auto simp: syncRecordings_js_enter_def syncRecordings_js_leave_def split: if_splits)

text \<open>
  Claim C2: in both copies of the pass, an invocation that finds \<^verbatim>\<open>isSyncing\<close> set
  returns at once and changes nothing. The flag is tested and set in the stretch
  that enters the pass, before its first \<^verbatim>\<open>await\<close>, so for any number of triggers
  and any interleaving of their stretches with each other and with other code, at
  most one invocation is inside the pass at any moment, the flag is set exactly
  while one is, and an invocation that is run while another is inside returns at
  the guard without changing the state.
\<close>

theorem sync_pass_single_flight:
  "(isSyncing a \<longrightarrow> syncRecordings up auth now a = Some (None, a)) \<and>
   (isSyncing_js b \<longrightarrow> syncRecordings_js up' auth' now b = Some b) \<and>
   (\<not> isSyncing a \<longrightarrow>
      single_flight isSyncing (run_triggers auth evs (a, map Triggered ns)) \<and>
      (i < length (snd (run_triggers auth evs (a, map Triggered ns))) \<and>
       inside (snd (run_triggers auth evs (a, map Triggered ns)) ! i) \<and>
       j < length (snd (run_triggers auth evs (a, map Triggered ns))) \<and>
       snd (run_triggers auth evs (a, map Triggered ns)) ! j = Triggered n \<longrightarrow>
       run_triggers auth (evs @ [Run j f]) (a, map Triggered ns) =
         (fst (run_triggers auth evs (a, map Triggered ns)),
          (snd (run_triggers auth evs (a, map Triggered ns)))[j := Returned False]))) \<and>
   (\<not> isSyncing_js b \<longrightarrow>
      single_flight isSyncing_js (run_triggers_js auth' evs' (b, map Triggered ms)) \<and>
      (i' < length (snd (run_triggers_js auth' evs' (b, map Triggered ms))) \<and>
       inside (snd (run_triggers_js auth' evs' (b, map Triggered ms)) ! i') \<and>
       j' < length (snd (run_triggers_js auth' evs' (b, map Triggered ms))) \<and>
       snd (run_triggers_js auth' evs' (b, map Triggered ms)) ! j' = Triggered n' \<longrightarrow>
       run_triggers_js auth' (evs' @ [Run j' f']) (b, map Triggered ms) =
         (fst (run_triggers_js auth' evs' (b, map Triggered ms)),
          (snd (run_triggers_js auth' evs' (b, map Triggered ms)))[j' := Returned False])))"
proof -
  have 1: "isSyncing a \<Longrightarrow> syncRecordings up auth now a = Some (None, a)"
    by (simp add: syncRecordings_def syncRecordings_enter_def)
  have 2: "isSyncing_js b \<Longrightarrow> syncRecordings_js up' auth' now b = Some b"
    by (simp add: syncRecordings_js_def syncRecordings_js_enter_def)
  have 3: "single_flight isSyncing (run_triggers auth evs (a, map Triggered ns))"
    if "\<not> isSyncing a"
    unfolding run_triggers_def
    using single_flight_initial[of isSyncing a ns] that
    by (intro single_flight_run enter_props(1-3)) auto
  have 4: "single_flight isSyncing_js (run_triggers_js auth' evs' (b, map Triggered ms))"
    if "\<not> isSyncing_js b"
    unfolding run_triggers_js_def
    using single_flight_initial[of isSyncing_js b ms] that
    by (intro single_flight_run enter_js_props(1-3)) auto
  have 5: "run_triggers auth (evs @ [Run j f]) (a, map Triggered ns) =
         (fst (run_triggers auth evs (a, map Triggered ns)),
          (snd (run_triggers auth evs (a, map Triggered ns)))[j := Returned False])"
    if "\<not> isSyncing a" "i < length (snd (run_triggers auth evs (a, map Triggered ns)))"
       "inside (snd (run_triggers auth evs (a, map Triggered ns)) ! i)"
       "j < length (snd (run_triggers auth evs (a, map Triggered ns)))"
       "snd (run_triggers auth evs (a, map Triggered ns)) ! j = Triggered n"
  proof -
    obtain s invs where r: "run_triggers auth evs (a, map Triggered ns) = (s, invs)"
      by (cases "run_triggers auth evs (a, map Triggered ns)")
    have "single_flight isSyncing (s, invs)" using 3[OF that(1)] r by simp
    from second_trigger_returns[of isSyncing "syncRecordings_enter auth", OF enter_props(4) this,
        of i j n syncRecordings_leave f] that(2-5) r
    show ?thesis by (simp add: run_triggers_def sched_run_def)
  qed
  have 6: "run_triggers_js auth' (evs' @ [Run j' f']) (b, map Triggered ms) =
         (fst (run_triggers_js auth' evs' (b, map Triggered ms)),
          (snd (run_triggers_js auth' evs' (b, map Triggered ms)))[j' := Returned False])"
    if "\<not> isSyncing_js b" "i' < length (snd (run_triggers_js auth' evs' (b, map Triggered ms)))"
       "inside (snd (run_triggers_js auth' evs' (b, map Triggered ms)) ! i')"
       "j' < length (snd (run_triggers_js auth' evs' (b, map Triggered ms)))"
       "snd (run_triggers_js auth' evs' (b, map Triggered ms)) ! j' = Triggered n'"
  proof -
    obtain s invs where r: "run_triggers_js auth' evs' (b, map Triggered ms) = (s, invs)"
      by (cases "run_triggers_js auth' evs' (b, map Triggered ms)")
    have "single_flight isSyncing_js (s, invs)" using 4[OF that(1)] r by simp
    from second_trigger_returns[of isSyncing_js "syncRecordings_js_enter auth'",
        OF enter_js_props(4) this, of i' j' n' syncRecordings_js_leave f'] that(2-5) r
    show ?thesis by (simp add: run_triggers_js_def sched_run_def)
  qed
  show ?thesis using 1 2 3 4 5 6 by blast
qed

theorem sync_pass_single_flight_witness:
  "syncRecordings always_ok (\<lambda>_. True) 100 ((idle_app [waiting 1 ''first.webm''])\<lparr>isSyncing := True\<rparr>) =
     Some (None, (idle_app [waiting 1 ''first.webm''])\<lparr>isSyncing := True\<rparr>) \<and>
   syncRecordings_js (failing_on_row 1) (\<lambda>_. True) 100
       ((idle_app_js [] [row_of 1])\<lparr>isSyncing_js := True\<rparr>) =
     Some ((idle_app_js [] [row_of 1])\<lparr>isSyncing_js := True\<rparr>) \<and>
   run_triggers (\<lambda>_. True) [Run 0 id] (idle_app [], [Triggered 2, Triggered 2]) =
     ((idle_app [])\<lparr>isSyncing := True\<rparr>, [Inside 2, Triggered 2]) \<and>
   run_triggers (\<lambda>_. True) [Run 0 id, Run 1 id] (idle_app [], [Triggered 2, Triggered 2]) =
     ((idle_app [])\<lparr>isSyncing := True\<rparr>, [Inside 2, Returned False]) \<and>
   single_flight isSyncing
     (run_triggers (\<lambda>_. True) [Run 0 id] (idle_app [], [Triggered 2, Triggered 2])) \<and>
   run_triggers_js (\<lambda>_. True) [Run 0 id] (idle_app_js [] [], [Triggered 2, Triggered 2]) =
     ((idle_app_js [] [])\<lparr>isSyncing_js := True, syncStatus := StatusSyncing\<rparr>,
      [Inside 2, Triggered 2]) \<and>
   run_triggers_js (\<lambda>_. True) [Run 0 id, Run 1 id]
       (idle_app_js [] [], [Triggered 2, Triggered 2]) =
     ((idle_app_js [] [])\<lparr>isSyncing_js := True, syncStatus := StatusSyncing\<rparr>,
      [Inside 2, Returned False]) \<and>
   single_flight isSyncing_js
     (run_triggers_js (\<lambda>_. True) [Run 0 id] (idle_app_js [] [], [Triggered 2, Triggered 2])) \<and>
   run_triggers (\<lambda>_. True) [Run 0 id, Run 1 id, Run 0 id, Run 0 id, Run 0 id]
       (idle_app [], [Triggered 2, Triggered 2]) =
     (idle_app [], [Returned True, Returned False])"
proof -
  have a: "isSyncing ((idle_app [waiting 1 ''first.webm''])\<lparr>isSyncing := True\<rparr>)"
      "isSyncing_js ((idle_app_js [] [row_of 1])\<lparr>isSyncing_js := True\<rparr>)"
    by simp_all
  have b: "\<not> isSyncing (idle_app [])" "\<not> isSyncing_js (idle_app_js [] [])"
    by (simp_all add: idle_app_def idle_app_js_def)
  have c: "run_triggers (\<lambda>_. True) [Run 0 id] (idle_app [], [Triggered 2, Triggered 2]) =
     ((idle_app [])\<lparr>isSyncing := True\<rparr>, [Inside 2, Triggered 2])"
    by (simp add: run_triggers_def sched_run_def syncRecordings_enter_def idle_app_def)
  have d: "run_triggers_js (\<lambda>_. True) [Run 0 id] (idle_app_js [] [], [Triggered 2, Triggered 2]) =
     ((idle_app_js [] [])\<lparr>isSyncing_js := True, syncStatus := StatusSyncing\<rparr>,
      [Inside 2, Triggered 2])"
    by (simp add: run_triggers_js_def sched_run_def syncRecordings_js_enter_def idle_app_js_def)
  have e: "run_triggers (\<lambda>_. True) [Run 0 id, Run 1 id, Run 0 id, Run 0 id, Run 0 id]
       (idle_app [], [Triggered 2, Triggered 2]) =
     (idle_app [], [Returned True, Returned False])"
    by (simp add: run_triggers_def sched_run_def syncRecordings_enter_def
        syncRecordings_leave_def stretch_def idle_app_def numeral_2_eq_2)
  note t1 = sync_pass_single_flight[of "(idle_app [waiting 1 ''first.webm''])\<lparr>isSyncing := True\<rparr>"
      always_ok "\<lambda>_. True" 100 "(idle_app_js [] [row_of 1])\<lparr>isSyncing_js := True\<rparr>"
      "failing_on_row 1" "\<lambda>_. True"]
  note t2 = sync_pass_single_flight[of "idle_app []" always_ok "\<lambda>_. True" 100
      "idle_app_js [] []" "failing_on_row 1" "\<lambda>_. True" "[Run 0 id]" "[2, 2]" 0 1 2 id
      "[Run 0 id]" "[2, 2]" 0 1 2 id]
  show ?thesis
    using t1 t2 a b e by (simp add: c d)
qed

section \<open>Re-authentication inside a pass\<close>



end
